theory Spec2Isabelle
  imports Main "HOL-Library.Sublist" "HOL-Library.Word" "HOL-Library.AList"
begin

section \<open>Data model (src/types/index.ts)\<close>

type_synonym StreamId = string
type_synonym UserId = string

datatype VideoFormat = H264 | H265 | VP8 | VP9

text \<open>
  A \<open>VideoFrame\<close>: \<open>data\<close> is a \<open>Uint8Array\<close>; the numeric fields are JavaScript numbers,
  taken here as integers.
\<close>

record VideoFrame =
  frame_data :: "8 word list"
  frame_timestamp :: int
  frame_width :: int
  frame_height :: int
  frame_format :: VideoFormat

text \<open>
  The numbers of a stream configuration are compared by \<open>validateStream\<close> and by the
  routing rules, so they are JavaScript numbers with their \<open>NaN\<close>: a finite value, or
  \<open>NaN\<close>, on which every comparison is false. A numeric field that is missing reads as
  \<open>undefined\<close>, which the comparison operators convert to \<open>NaN\<close>, so \<open>NaN\<close> stands for it
  too. \<open>num_le a b\<close> is \<open>a <= b\<close> (and \<open>b >= a\<close>), \<open>num_lt a b\<close> is \<open>a < b\<close> (and \<open>b > a\<close>).
\<close>

datatype Number = Finite int | NaN

fun num_le :: "Number \<Rightarrow> Number \<Rightarrow> bool" where
  "num_le (Finite a) (Finite b) = (a \<le> b)"
| "num_le _ _ = False"

fun num_lt :: "Number \<Rightarrow> Number \<Rightarrow> bool" where
  "num_lt (Finite a) (Finite b) = (a < b)"
| "num_lt _ _ = False"

record Resolution =
  width :: Number
  height :: Number

record StreamConfig =
  resolution :: "Resolution option"
  frameRate :: Number
  bitrate :: Number
  audioEnabled :: bool

text \<open>
  A \<open>VideoStream\<close> as \<open>validateStream\<close> and the routing rules inspect it. The fields the
  code tests for presence (\<open>!stream.config\<close>, \<open>!stream.config.resolution\<close>,
  \<open>!stream.frames\<close>) are options; a missing string is the empty string, which JavaScript
  treats as absent too.
\<close>

record VideoStream =
  streamId :: StreamId
  userId :: UserId
  config :: "StreamConfig option"
  frames :: "VideoFrame list option"

record ValidationResult =
  isValid :: bool
  errors :: "string list"
  warnings :: "string list"

section \<open>Observable events\<close>

text \<open>
  Every \<open>emit\<close> of the three server components, with the payload fields that do not
  depend on the wall clock.
\<close>

datatype Event =
    BufferHighWater StreamId nat
  | FrameAdded StreamId nat int
  | BufferLowWater StreamId nat
  | FrameRetrieved StreamId nat int
  | FramesRetrieved StreamId nat nat
  | BufferCleared StreamId nat
  | BufferRemoved StreamId nat
  | BufferOverflow StreamId nat nat
  | RouteAdded StreamId int
  | RouteRemoved StreamId
  | ProcessingNext StreamId
  | RuleFailed StreamId string
  | ProcessorStarted
  | ProcessorStopped
  | QueueAdded StreamId int nat
  | QueueRemoved StreamId nat
  | ProcessingStarted StreamId
  | AIProcessing StreamId nat
  | FramesEnhanced StreamId "VideoFrame list"
  | BatchProcessed StreamId nat
  | BatchError StreamId nat
  | ProcessingCompleted StreamId nat nat
  | ProcessingRetry StreamId nat nat
  | ProcessingFailed StreamId nat
  | StreamAdded StreamId UserId
  | StreamRoute StreamId
  | StreamDisconnected StreamId
  | StreamError StreamId string
  | RuleError StreamId string

section \<open>StreamBuffer (src/server/StreamBuffer.ts)\<close>

text \<open>
  The class keeps a \<open>Map\<close> from stream id to frame array and three numbers fixed by the
  constructor. \<open>Math.floor(n * 0.3)\<close> and \<open>Math.floor(n * 0.8)\<close> are \<open>3 * n div 10\<close>
  and \<open>8 * n div 10\<close> for a buffer size \<open>n\<close> that is a natural number.
\<close>

record StreamBuffer =
  buffers :: "StreamId \<rightharpoonup> VideoFrame list"
  maxBufferSize :: nat
  lowWaterMark :: nat
  highWaterMark :: nat

definition new_StreamBuffer :: "nat \<Rightarrow> StreamBuffer" where
  "new_StreamBuffer n =
     \<lparr> buffers = Map.empty, maxBufferSize = n,
       lowWaterMark = (3 * n) div 10, highWaterMark = (8 * n) div 10 \<rparr>"

text \<open>
  \<open>handleOverflow\<close>: \<open>buffer.splice(0, framesToRemove)\<close> takes the oldest frames out of
  the array in place, then the overflow event carries how many were removed.
\<close>

definition handleOverflow ::
  "StreamId \<Rightarrow> VideoFrame list \<Rightarrow> StreamBuffer \<Rightarrow> Event list \<times> StreamBuffer" where
  "handleOverflow sid buffer b =
     (let framesToRemove = (3 * maxBufferSize b) div 10;
          removedFrames = take framesToRemove buffer;
          buffer' = drop framesToRemove buffer
      in ([BufferOverflow sid (length removedFrames) (length buffer')],
          b\<lparr>buffers := (buffers b)(sid \<mapsto> buffer')\<rparr>))"

text \<open>
  \<open>addFrame\<close>: a missing buffer is created empty; a buffer at capacity goes through
  \<open>handleOverflow\<close> and the call returns \<open>false\<close> at once; otherwise the frame is pushed,
  the high-water event is emitted when the new length equals the mark, and
  \<open>frame:added\<close> follows.
\<close>

definition addFrame ::
  "StreamId \<Rightarrow> VideoFrame \<Rightarrow> StreamBuffer \<Rightarrow> bool \<times> Event list \<times> StreamBuffer" where
  "addFrame sid frame b =
     (let buffer = (case buffers b sid of None \<Rightarrow> [] | Some xs \<Rightarrow> xs)
      in if length buffer \<ge> maxBufferSize b then
           (let (evs, b') = handleOverflow sid buffer b in (False, evs, b'))
         else
           (let buffer' = buffer @ [frame]
            in (True,
                (if length buffer' = highWaterMark b
                 then [BufferHighWater sid (length buffer')] else [])
                @ [FrameAdded sid (length buffer') (frame_timestamp frame)],
                b\<lparr>buffers := (buffers b)(sid \<mapsto> buffer')\<rparr>)))"

text \<open>\<open>getNextFrame\<close>: \<open>null\<close> for a missing or empty buffer, else \<open>buffer.shift()\<close>.\<close>

definition getNextFrame ::
  "StreamId \<Rightarrow> StreamBuffer \<Rightarrow> VideoFrame option \<times> Event list \<times> StreamBuffer" where
  "getNextFrame sid b =
     (case buffers b sid of
        None \<Rightarrow> (None, [], b)
      | Some [] \<Rightarrow> (None, [], b)
      | Some (frame # buffer') \<Rightarrow>
          (Some frame,
           (if length buffer' = lowWaterMark b
            then [BufferLowWater sid (length buffer')] else [])
           @ [FrameRetrieved sid (length buffer') (frame_timestamp frame)],
           b\<lparr>buffers := (buffers b)(sid \<mapsto> buffer')\<rparr>))"

text \<open>
  \<open>getFrames\<close>: \<open>buffer.splice(0, Math.min(count, buffer.length))\<close>; the count is a
  natural number.
\<close>

definition getFrames ::
  "StreamId \<Rightarrow> nat \<Rightarrow> StreamBuffer \<Rightarrow> VideoFrame list \<times> Event list \<times> StreamBuffer" where
  "getFrames sid count b =
     (case buffers b sid of
        None \<Rightarrow> ([], [], b)
      | Some [] \<Rightarrow> ([], [], b)
      | Some buffer \<Rightarrow>
          (let framesToReturn = min count (length buffer);
               frames = take framesToReturn buffer;
               buffer' = drop framesToReturn buffer
           in (frames, [FramesRetrieved sid (length frames) (length buffer')],
               b\<lparr>buffers := (buffers b)(sid \<mapsto> buffer')\<rparr>)))"

definition peekNextFrame :: "StreamId \<Rightarrow> StreamBuffer \<Rightarrow> VideoFrame option" where
  "peekNextFrame sid b =
     (case buffers b sid of None \<Rightarrow> None | Some [] \<Rightarrow> None | Some (x # _) \<Rightarrow> Some x)"

definition getBufferSize :: "StreamId \<Rightarrow> StreamBuffer \<Rightarrow> nat" where
  "getBufferSize sid b = (case buffers b sid of None \<Rightarrow> 0 | Some xs \<Rightarrow> length xs)"

definition isEmpty :: "StreamId \<Rightarrow> StreamBuffer \<Rightarrow> bool" where
  "isEmpty sid b = (getBufferSize sid b = 0)"

definition isFull :: "StreamId \<Rightarrow> StreamBuffer \<Rightarrow> bool" where
  "isFull sid b = (getBufferSize sid b \<ge> maxBufferSize b)"


definition removeStream :: "StreamId \<Rightarrow> StreamBuffer \<Rightarrow> Event list \<times> StreamBuffer" where
  "removeStream sid b =
     (case buffers b sid of
        None \<Rightarrow> ([], b)
      | Some buffer \<Rightarrow>
          ([BufferRemoved sid (length buffer)], b\<lparr>buffers := (buffers b)(sid := None)\<rparr>))"

subsection \<open>Sequences of buffer calls\<close>

text \<open>
  A client of the buffer pushes, pops and drains. \<open>bufferOp\<close> runs one call and gives the
  frames it handed back; \<open>bufferRun\<close> runs a sequence of calls and collects, per call, the
  stream, the frames handed back and the events, with the final buffer.
\<close>

datatype BufferOp =
    Push StreamId VideoFrame
  | Pop StreamId
  | Drain StreamId nat

fun opStream :: "BufferOp \<Rightarrow> StreamId" where
  "opStream (Push sid _) = sid"
| "opStream (Pop sid) = sid"
| "opStream (Drain sid _) = sid"

fun bufferOp :: "BufferOp \<Rightarrow> StreamBuffer \<Rightarrow> VideoFrame list \<times> Event list \<times> StreamBuffer" where
  "bufferOp (Push sid frame) b = ([], snd (addFrame sid frame b))"
| "bufferOp (Pop sid) b =
     ((case fst (getNextFrame sid b) of None \<Rightarrow> [] | Some f \<Rightarrow> [f]),
      snd (getNextFrame sid b))"
| "bufferOp (Drain sid n) b = getFrames sid n b"

fun bufferRun ::
  "BufferOp list \<Rightarrow> StreamBuffer \<Rightarrow> (StreamId \<times> VideoFrame list) list \<times> Event list \<times> StreamBuffer" where
  "bufferRun [] b = ([], [], b)"
| "bufferRun (op # ops) b =
     (let r1 = bufferOp op b;
          r2 = bufferRun ops (snd (snd r1))
      in ((opStream op, fst r1) # fst r2, fst (snd r1) @ fst (snd r2), snd (snd r2)))"

text \<open>The frames handed back for one stream, in the order of the calls.\<close>

fun returned :: "StreamId \<Rightarrow> (StreamId \<times> VideoFrame list) list \<Rightarrow> VideoFrame list" where
  "returned sid [] = []"
| "returned sid ((s, out) # outs) = (if s = sid then out else []) @ returned sid outs"

text \<open>The frames pushed to one stream, in push order.\<close>

fun pushed :: "StreamId \<Rightarrow> BufferOp list \<Rightarrow> VideoFrame list" where
  "pushed sid [] = []"
| "pushed sid (Push s f # ops) = (if s = sid then [f] else []) @ pushed sid ops"
| "pushed sid (_ # ops) = pushed sid ops"

fun isOverflow :: "Event \<Rightarrow> bool" where
  "isOverflow (BufferOverflow _ _ _) = True"
| "isOverflow _ = False"


text \<open>A frame for the concrete runs, told apart by its timestamp.\<close>

definition mkFrame :: "nat \<Rightarrow> VideoFrame" where
  "mkFrame i = \<lparr> frame_data = [], frame_timestamp = int i, frame_width = 640,
                 frame_height = 480, frame_format = H264 \<rparr>"

text \<open>The frames a stream holds, oldest first; none for an unknown stream.\<close>

definition bufferContents :: "StreamId \<Rightarrow> StreamBuffer \<Rightarrow> VideoFrame list" where
  "bufferContents sid b = (case buffers b sid of None \<Rightarrow> [] | Some xs \<Rightarrow> xs)"

text \<open>Thirty-five frames, and their pushes to the stream \<open>s1\<close>.\<close>

definition frames35 :: "VideoFrame list" where
  "frames35 = map mkFrame [0..<35]"

definition pushes35 :: "BufferOp list" where
  "pushes35 = map (Push ''s1'') frames35"

definition pushes31 :: "BufferOp list" where
  "pushes31 = map (Push ''s1'') (take 31 frames35)"

section \<open>The server as one state\<close>

text \<open>
  \<open>StreamIngestionService\<close> owns one \<open>StreamBuffer\<close>, one \<open>StreamRouter\<close> and one
  \<open>StreamProcessor\<close>; the three talk through synchronous event listeners. The state below
  holds the fields of all four objects. A JavaScript \<open>Map\<close> whose iteration order the code
  relies on is an association list in insertion order (\<open>AList.update\<close> is \<open>Map.set\<close>,
  \<open>AList.delete\<close> is \<open>Map.delete\<close>); a \<open>Set\<close> is a list without repetition.

  \<open>ProcessingJob\<close> objects are mutated in place and shared between the queue and the retry
  timers, so they live in a store (\<open>jobs\<close>, addressed by position) and the queue holds
  addresses. The field \<open>queuedAt\<close> (\<open>Date.now()\<close>) is left out, as are the clock-derived
  fields of \<open>ProcessingMetrics\<close>.
\<close>

record ProcessingJob =
  job_streamId :: StreamId
  priority :: int
  frameCount :: nat
  retryCount :: nat

record ProcessingMetrics =
  metric_processedFrames :: nat
  metric_errors :: nat
  queueDepth :: nat

text \<open>
  A call of \<open>processStream\<close> that is suspended at an \<open>await\<close>: either inside
  \<open>processBatch\<close> with the batch it drained, or in the one-millisecond pause after a batch.
\<close>

datatype PassPhase = AwaitBatch "VideoFrame list" | AwaitYield

record Pass =
  pass_streamId :: StreamId
  processedFrames :: nat
  errorCount :: nat
  phase :: PassPhase

record System =
  streamBuffer :: StreamBuffer
  routerQueue :: "(StreamId \<times> int) list"
  activeRoutes :: "StreamId list"
  processingQueue :: "(StreamId \<times> nat) list"
  jobs :: "ProcessingJob list"
  activeProcessing :: "StreamId list"
  maxConcurrentStreams :: nat
  processingMetrics :: "StreamId \<rightharpoonup> ProcessingMetrics"
  isProcessing :: bool
  activeStreams :: "StreamId \<rightharpoonup> VideoStream"
  userSessions :: "UserId \<rightharpoonup> StreamId"
  passes :: "Pass list"
  retryTimers :: "(StreamId \<times> nat \<times> nat) list"
  emitted :: "Event list"

datatype Error =
    TypeError
  | StreamNotFound StreamId
  | InvalidStream "string list"
  | RoutingFailed StreamId

definition Set_add :: "'a \<Rightarrow> 'a list \<Rightarrow> 'a list" where
  "Set_add x xs = (if x \<in> set xs then xs else xs @ [x])"

definition Set_delete :: "'a \<Rightarrow> 'a list \<Rightarrow> 'a list" where
  "Set_delete x xs = removeAll x xs"

text \<open>An \<open>emit\<close> whose listeners only forward the event.\<close>

definition emit :: "Event \<Rightarrow> System \<Rightarrow> System" where
  "emit e st = st\<lparr>emitted := emitted st @ [e]\<rparr>"

section \<open>StreamProcessor (the coordinator)\<close>

text \<open>
  \<open>handleProcessingError\<close>: looks the job up in the queue; with a job below three retries
  it increments \<open>retryCount\<close> on the job object, arms a timer of \<open>2 ^ retryCount\<close> seconds
  and emits the retry; otherwise it emits the terminal failure with
  \<open>job?.retryCount || 0\<close>.
\<close>

definition handleProcessingError :: "StreamId \<Rightarrow> System \<Rightarrow> System" where
  "handleProcessingError sid st =
     (case map_of (processingQueue st) sid of
        None \<Rightarrow> emit (ProcessingFailed sid 0) st
      | Some a \<Rightarrow>
          (let job = jobs st ! a
           in if retryCount job < 3 then
                (let job' = job\<lparr>retryCount := retryCount job + 1\<rparr>;
                     delay = 2 ^ (retryCount job') * 1000
                 in emit (ProcessingRetry sid (retryCount job') delay)
                      (st\<lparr>jobs := (jobs st)[a := job'],
                          retryTimers := retryTimers st @ [(sid, a, delay)]\<rparr>))
              else emit (ProcessingFailed sid (retryCount job)) st))"

text \<open>
  \<open>getNextProcessingJob\<close>: one scan of the queue values in insertion order, skipping jobs
  whose stream is active or whose buffer is empty, keeping the first job of strictly
  highest priority above \<open>-1\<close>.
\<close>

fun scanJobs :: "System \<Rightarrow> (StreamId \<times> nat) list \<Rightarrow> int \<Rightarrow> nat option \<Rightarrow> nat option" where
  "scanJobs st [] highestPriority selectedJob = selectedJob"
| "scanJobs st ((k, a) # rest) highestPriority selectedJob =
     (let job = jobs st ! a
      in if job_streamId job \<in> set (activeProcessing st) then
           scanJobs st rest highestPriority selectedJob
         else if isEmpty (job_streamId job) (streamBuffer st) then
           scanJobs st rest highestPriority selectedJob
         else if priority job > highestPriority then
           scanJobs st rest (priority job) (Some a)
         else scanJobs st rest highestPriority selectedJob)"

definition getNextProcessingJob :: "System \<Rightarrow> nat option" where
  "getNextProcessingJob st =
     (if processingQueue st = [] then None
      else scanJobs st (processingQueue st) (- 1) None)"

text \<open>
  The \<open>finally\<close> block of \<open>processStream\<close>: the metrics are stored and completion is
  emitted.
\<close>

definition processStream_finally :: "StreamId \<Rightarrow> nat \<Rightarrow> nat \<Rightarrow> System \<Rightarrow> System" where
  "processStream_finally sid processed errs st =
     emit (ProcessingCompleted sid processed errs)
       (st\<lparr>processingMetrics := (processingMetrics st)(sid \<mapsto>
             \<lparr> metric_processedFrames = processed, metric_errors = errs,
               queueDepth = getBufferSize sid (streamBuffer st) \<rparr>)\<rparr>)"

text \<open>
  What \<open>processNextBatch\<close> does once \<open>await this.processStream(streamId)\<close> settles: the
  \<open>catch\<close> branch when it rejected, then the \<open>finally\<close> branch. The
  \<open>setImmediate\<close> call of \<open>processNextBatch\<close> is the action \<open>Tick\<close> below.
\<close>

definition processNextBatch_settle :: "StreamId \<Rightarrow> bool \<Rightarrow> System \<Rightarrow> System" where
  "processNextBatch_settle sid rejected st =
     (let st1 = (if rejected then handleProcessingError sid st else st)
      in st1\<lparr>activeProcessing := Set_delete sid (activeProcessing st1)\<rparr>)"

text \<open>
  One entry into the \<open>while\<close> loop of \<open>processStream\<close>, up to the next \<open>await\<close>. With
  frames drained the call suspends inside \<open>processBatch\<close>; with none, or when the
  processor was stopped, the pass ends. A failure of \<open>processBatch\<close> is caught inside
  the loop, so the promise of \<open>processStream\<close> rejects only when a listener throws;
  \<open>rejected\<close> says whether a listener of the completion event does.
\<close>

definition processStream_loop :: "StreamId \<Rightarrow> nat \<Rightarrow> nat \<Rightarrow> bool \<Rightarrow> System \<Rightarrow> System" where
  "processStream_loop sid processed errs rejected st =
     (if isProcessing st then
        (case getFrames sid 5 (streamBuffer st) of
           (batch, evs, b') \<Rightarrow>
             (let st1 = st\<lparr>streamBuffer := b', emitted := emitted st @ evs\<rparr>
              in if batch = [] then
                   processNextBatch_settle sid rejected
                     (processStream_finally sid processed errs st1)
                 else
                   (emit (AIProcessing sid (length batch)) st1)
                     \<lparr>passes := passes st1 @
                        [\<lparr> pass_streamId = sid, processedFrames = processed,
                           errorCount = errs, phase = AwaitBatch batch \<rparr>]\<rparr>))
      else processNextBatch_settle sid rejected
             (processStream_finally sid processed errs st))"

text \<open>
  \<open>processNextBatch\<close>, from its call to its first suspension: the guard on the running
  flag and the concurrency ceiling, the selection, the move from queue to active set, and
  the start of \<open>processStream\<close>. With no job it only arms a ten-millisecond timer.
\<close>

definition processNextBatch :: "System \<Rightarrow> System" where
  "processNextBatch st =
     (if \<not> isProcessing st \<or> length (activeProcessing st) \<ge> maxConcurrentStreams st then st
      else case getNextProcessingJob st of
             None \<Rightarrow> st
           | Some a \<Rightarrow>
               (let sid = job_streamId (jobs st ! a);
                    st1 = st\<lparr>activeProcessing := Set_add sid (activeProcessing st),
                             processingQueue := AList.delete sid (processingQueue st)\<rparr>
                in processStream_loop sid 0 0 False (emit (ProcessingStarted sid) st1)))"

definition addStreamToQueue :: "StreamId \<Rightarrow> int \<Rightarrow> System \<Rightarrow> System" where
  "addStreamToQueue sid prio st =
     (case map_of (processingQueue st) sid of
        Some a \<Rightarrow>
          st\<lparr>jobs := (jobs st)[a := (jobs st ! a)\<lparr>priority := max (priority (jobs st ! a)) prio\<rparr>]\<rparr>
      | None \<Rightarrow>
          (let job = \<lparr> job_streamId = sid, priority = prio,
                       frameCount = getBufferSize sid (streamBuffer st), retryCount = 0 \<rparr>;
               st1 = st\<lparr>jobs := jobs st @ [job],
                        processingQueue := AList.update sid (length (jobs st)) (processingQueue st)\<rparr>;
               st2 = emit (QueueAdded sid prio (length (processingQueue st1))) st1
           in if isProcessing st2 \<and> length (activeProcessing st2) < maxConcurrentStreams st2
              then processNextBatch st2 else st2))"

definition removeStreamFromQueue :: "StreamId \<Rightarrow> System \<Rightarrow> System" where
  "removeStreamFromQueue sid st =
     (let st1 = st\<lparr>processingQueue := AList.delete sid (processingQueue st),
                    activeProcessing := Set_delete sid (activeProcessing st),
                    processingMetrics := (processingMetrics st)(sid := None)\<rparr>
      in emit (QueueRemoved sid (length (processingQueue st1))) st1)"

definition start :: "System \<Rightarrow> System" where
  "start st =
     (if isProcessing st then st
      else emit ProcessorStarted (processNextBatch (st\<lparr>isProcessing := True\<rparr>)))"

definition stop :: "System \<Rightarrow> System" where
  "stop st =
     emit ProcessorStopped (st\<lparr>isProcessing := False, activeProcessing := [], processingQueue := []\<rparr>)"

text \<open>The processor's listeners on buffer and router events (\<open>setupEventHandlers\<close>).\<close>

definition onFrameAdded :: "StreamId \<Rightarrow> System \<Rightarrow> System" where
  "onFrameAdded sid st =
     (if map_of (processingQueue st) sid = None \<and> sid \<notin> set (activeProcessing st)
      then addStreamToQueue sid 1 st else st)"

definition onBufferOverflow :: "StreamId \<Rightarrow> System \<Rightarrow> System" where
  "onBufferOverflow sid st =
     (case map_of (processingQueue st) sid of
        None \<Rightarrow> st
      | Some a \<Rightarrow>
          st\<lparr>jobs := (jobs st)[a := (jobs st ! a)\<lparr>priority := min (priority (jobs st ! a) + 1) 10\<rparr>]\<rparr>)"

text \<open>An \<open>emit\<close> of a buffer or router event: the event, then the processor's listener.\<close>

fun deliver :: "Event \<Rightarrow> System \<Rightarrow> System" where
  "deliver (FrameAdded sid n t) st = onFrameAdded sid (emit (FrameAdded sid n t) st)"
| "deliver (BufferOverflow sid r n) st = onBufferOverflow sid (emit (BufferOverflow sid r n) st)"
| "deliver (RouteAdded sid p) st = addStreamToQueue sid p (emit (RouteAdded sid p) st)"
| "deliver (RouteRemoved sid) st = removeStreamFromQueue sid (emit (RouteRemoved sid) st)"
| "deliver e st = emit e st"

text \<open>
  The continuation of a suspended pass. \<open>batchDone\<close>: \<open>processBatch\<close> settles for pass
  \<open>i\<close>, successfully or not, and the pass reaches its pause. \<open>yieldDone\<close>: the pause is
  over and the loop is entered again.
\<close>

definition batchDone :: "nat \<Rightarrow> bool \<Rightarrow> System \<Rightarrow> System" where
  "batchDone i ok st =
     (if i < length (passes st) then
        (let p = passes st ! i
         in case phase p of
              AwaitYield \<Rightarrow> st
            | AwaitBatch batch \<Rightarrow>
                (if ok then
                   (emit (BatchProcessed (pass_streamId p) (length batch))
                      (emit (FramesEnhanced (pass_streamId p) batch) st))
                     \<lparr>passes := (passes st)[i := p\<lparr>processedFrames := processedFrames p + length batch,
                                                   phase := AwaitYield\<rparr>]\<rparr>
                 else
                   (emit (BatchError (pass_streamId p) (length batch)) st)
                     \<lparr>passes := (passes st)[i := p\<lparr>errorCount := errorCount p + 1,
                                                   phase := AwaitYield\<rparr>]\<rparr>))
      else st)"

definition yieldDone :: "nat \<Rightarrow> bool \<Rightarrow> System \<Rightarrow> System" where
  "yieldDone i rejected st =
     (if i < length (passes st) then
        (let p = passes st ! i
         in case phase p of
              AwaitBatch batch \<Rightarrow> st
            | AwaitYield \<Rightarrow>
                processStream_loop (pass_streamId p) (processedFrames p) (errorCount p) rejected
                  (st\<lparr>passes := take i (passes st) @ drop (Suc i) (passes st)\<rparr>))
      else st)"

text \<open>A retry timer armed by \<open>handleProcessingError\<close> fires.\<close>

definition retryFire :: "nat \<Rightarrow> System \<Rightarrow> System" where
  "retryFire k st =
     (if k < length (retryTimers st) then
        (case retryTimers st ! k of
           (sid, a, delay) \<Rightarrow>
             processNextBatch
               (st\<lparr>retryTimers := take k (retryTimers st) @ drop (Suc k) (retryTimers st),
                   processingQueue := AList.update sid a (processingQueue st)\<rparr>))
      else st)"

section \<open>StreamRouter\<close>

fun scanRoutes :: "(StreamId \<times> int) list \<Rightarrow> int \<Rightarrow> StreamId option \<Rightarrow> StreamId option" where
  "scanRoutes [] highestPriority nextStreamId = nextStreamId"
| "scanRoutes ((sid, p) # rest) highestPriority nextStreamId =
     (if p > highestPriority then scanRoutes rest p (Some sid)
      else scanRoutes rest highestPriority nextStreamId)"

definition getNextStreamForProcessing :: "System \<Rightarrow> StreamId option" where
  "getNextStreamForProcessing st =
     (if routerQueue st = [] then None else scanRoutes (routerQueue st) (- 1) None)"

text \<open>\<open>processQueue\<close>: the hint is emitted for a next stream id that is truthy.\<close>

definition processQueue :: "System \<Rightarrow> System" where
  "processQueue st =
     (case getNextStreamForProcessing st of
        None \<Rightarrow> st
      | Some n \<Rightarrow> (if n = [] then st else emit (ProcessingNext n) st))"

definition routeToAI :: "StreamId \<Rightarrow> int \<Rightarrow> System \<Rightarrow> System" where
  "routeToAI sid prio st =
     processQueue
       (deliver (RouteAdded sid prio)
          (st\<lparr>routerQueue := AList.update sid prio (routerQueue st),
              activeRoutes := Set_add sid (activeRoutes st)\<rparr>))"

definition removeRoute :: "StreamId \<Rightarrow> System \<Rightarrow> System" where
  "removeRoute sid st =
     deliver (RouteRemoved sid)
       (st\<lparr>routerQueue := AList.delete sid (routerQueue st),
           activeRoutes := Set_delete sid (activeRoutes st)\<rparr>)"

definition isRouted :: "StreamId \<Rightarrow> System \<Rightarrow> bool" where
  "isRouted sid st = (sid \<in> set (activeRoutes st))"

text \<open>
  The three default routing rules, in the order \<open>setupDefaultRoutingRules\<close> adds them. A
  rule that throws (the third one, on a config without resolution) gives \<open>None\<close>.
\<close>

definition defaultRoutingRules :: "(string \<times> (VideoStream \<Rightarrow> bool option)) list" where
  "defaultRoutingRules =
     [(''valid_stream'',
         \<lambda>s. Some (streamId s \<noteq> [] \<and> userId s \<noteq> [] \<and> config s \<noteq> None)),
      (''has_frames'',
         \<lambda>s. Some (case frames s of None \<Rightarrow> False | Some fs \<Rightarrow> length fs > 0)),
      (''supported_resolution'',
         \<lambda>s. case config s of
                None \<Rightarrow> None
              | Some c \<Rightarrow>
                  (case resolution c of
                     None \<Rightarrow> None
                   | Some r \<Rightarrow> Some (num_le (Finite 320) (width r)
                                      \<and> num_le (Finite 240) (height r)
                                      \<and> num_le (width r) (Finite 3840)
                                      \<and> num_le (height r) (Finite 2160))))]"

fun runRules ::
  "(string \<times> (VideoStream \<Rightarrow> bool option)) list \<Rightarrow> VideoStream \<Rightarrow> System \<Rightarrow> bool \<times> System" where
  "runRules [] s st = (True, st)"
| "runRules ((name, rule) # rest) s st =
     (case rule s of
        None \<Rightarrow> (False, emit (RuleError (streamId s) name) st)
      | Some False \<Rightarrow> (False, emit (RuleFailed (streamId s) name) st)
      | Some True \<Rightarrow> runRules rest s st)"

definition shouldRoute :: "VideoStream \<Rightarrow> System \<Rightarrow> bool \<times> System" where
  "shouldRoute s st = runRules defaultRoutingRules s st"

section \<open>StreamIngestionService (the facade)\<close>

text \<open>
  \<open>s.trim() === ''\<close>: every character of the string is white space. Characters are
  code points below 256; of those, JavaScript trims tab, line feed, vertical tab, form
  feed, carriage return, space and the no-break space.
\<close>

definition isWhiteSpace :: "char \<Rightarrow> bool" where
  "isWhiteSpace c = (of_char c \<in> {9, 10, 11, 12, 13, 32, 160 :: nat})"

definition isBlank :: "string \<Rightarrow> bool" where
  "isBlank s = list_all isWhiteSpace s"

text \<open>
  \<open>validateStream\<close>. The high-resolution check reads \<open>stream.config.resolution.width\<close>
  without a guard, so a config without resolution ends in a \<open>TypeError\<close> after the
  resolution error was pushed.
\<close>

definition validateStream :: "VideoStream \<Rightarrow> Error + ValidationResult" where
  "validateStream stream =
     (let e1 = (if isBlank (streamId stream) then [''Stream ID is required''] else []);
          e2 = (if isBlank (userId stream) then [''User ID is required''] else []);
          w2 = (if (case frames stream of None \<Rightarrow> True | Some fs \<Rightarrow> length fs = 0)
                then [''No video frames present in stream''] else [])
      in case config stream of
           None \<Rightarrow>
             (let errs = e1 @ e2 @ [''Stream configuration is required'']
              in Inr \<lparr> isValid = (length errs = 0), errors = errs, warnings = w2 \<rparr>)
         | Some c \<Rightarrow>
             (let e3 = (if (case resolution c of
                              None \<Rightarrow> True
                            | Some r \<Rightarrow> num_le (width r) (Finite 0)
                                        \<or> num_le (height r) (Finite 0))
                        then [''Valid resolution is required''] else []);
                  e4 = (if num_le (frameRate c) (Finite 0) \<or> num_lt (Finite 120) (frameRate c)
                        then [''Frame rate must be between 1 and 120 fps''] else []);
                  e5 = (if num_le (bitrate c) (Finite 0)
                        then [''Bitrate must be positive''] else []);
                  errs = e1 @ e2 @ e3 @ e4 @ e5
              in case resolution c of
                   None \<Rightarrow> Inl TypeError
                 | Some r \<Rightarrow>
                     (let w1 = (if num_lt (Finite 1920) (width r)
                                   \<or> num_lt (Finite 1080) (height r)
                                then [''High resolution may impact processing performance'']
                                else [])
                      in Inr \<lparr> isValid = (length errs = 0), errors = errs,
                               warnings = w1 @ w2 \<rparr>)))"

text \<open>
  A call of a \<open>StreamBuffer\<close> method from the service: the buffer changes, then each
  event reaches its listeners in the order of emission.
\<close>

definition bufferCall ::
  "(StreamBuffer \<Rightarrow> 'r \<times> Event list \<times> StreamBuffer) \<Rightarrow> System \<Rightarrow> 'r \<times> System" where
  "bufferCall f st =
     (case f (streamBuffer st) of
        (r, evs, b') \<Rightarrow> (r, fold deliver evs (st\<lparr>streamBuffer := b'\<rparr>)))"

definition addFrameToBuffer :: "StreamId \<Rightarrow> VideoFrame \<Rightarrow> System \<Rightarrow> bool \<times> System" where
  "addFrameToBuffer sid frame st = bufferCall (addFrame sid frame) st"

definition svc_getNextFrame :: "StreamId \<Rightarrow> System \<Rightarrow> VideoFrame option \<times> System" where
  "svc_getNextFrame sid st = bufferCall (getNextFrame sid) st"

definition svc_getFrames :: "StreamId \<Rightarrow> nat \<Rightarrow> System \<Rightarrow> VideoFrame list \<times> System" where
  "svc_getFrames sid count st = bufferCall (getFrames sid count) st"

definition getBufferedFrameCount :: "StreamId \<Rightarrow> System \<Rightarrow> nat" where
  "getBufferedFrameCount sid st = getBufferSize sid (streamBuffer st)"

text \<open>
  \<open>handleDisconnection\<close>: nothing in its \<open>try\<close> block can throw, so the \<open>catch\<close> branch
  (which would emit \<open>stream:error\<close>) has no counterpart here.
\<close>

definition handleDisconnection :: "StreamId \<Rightarrow> System \<Rightarrow> System" where
  "handleDisconnection sid st =
     (let st1 = (case activeStreams st sid of
                   None \<Rightarrow> st
                 | Some stream \<Rightarrow>
                     st\<lparr>userSessions := (userSessions st)(userId stream := None),
                        activeStreams := (activeStreams st)(sid := None)\<rparr>);
          st2 = snd (bufferCall (\<lambda>b. ((), removeStream sid b)) st1);
          st3 = removeRoute sid st2;
          st4 = removeStreamFromQueue sid st3
      in emit (StreamDisconnected sid) st4)"

text \<open>
  \<open>addVideoStream\<close>: an invalid stream is refused before any change. \<open>for (const frame
  of stream.frames)\<close> throws on missing frames, after the two maps were written.
\<close>

definition addVideoStream :: "VideoStream \<Rightarrow> System \<Rightarrow> Error option \<times> System" where
  "addVideoStream stream st =
     (case validateStream stream of
        Inl e \<Rightarrow> (Some e, st)
      | Inr validation \<Rightarrow>
          if \<not> isValid validation then (Some (InvalidStream (errors validation)), st)
          else
            (let st1 = (case userSessions st (userId stream) of
                          None \<Rightarrow> st
                        | Some existingStreamId \<Rightarrow>
                            if existingStreamId = [] then st
                            else handleDisconnection existingStreamId st);
                 st2 = st1\<lparr>activeStreams := (activeStreams st1)(streamId stream \<mapsto> stream),
                           userSessions := (userSessions st1)(userId stream \<mapsto> streamId stream)\<rparr>
             in case frames stream of
                  None \<Rightarrow> (Some TypeError, st2)
                | Some fs \<Rightarrow>
                    (None,
                     emit (StreamAdded (streamId stream) (userId stream))
                       (fold (\<lambda>frame s. snd (addFrameToBuffer (streamId stream) frame s)) fs st2))))"

text \<open>
  \<open>routeToProcessor\<close>: an unknown stream is an error outside the \<open>try\<close>; a failed rule
  is reported through \<open>stream:error\<close> and thrown again; otherwise the stream is routed
  with priority 1 and queued with priority 1.
\<close>

definition routeToProcessor :: "StreamId \<Rightarrow> System \<Rightarrow> Error option \<times> System" where
  "routeToProcessor sid st =
     (case activeStreams st sid of
        None \<Rightarrow> (Some (StreamNotFound sid), st)
      | Some stream \<Rightarrow>
          (case shouldRoute stream st of
             (ok, st1) \<Rightarrow>
               if \<not> ok then
                 (Some (RoutingFailed sid), emit (StreamError sid ''Failed to route stream'') st1)
               else
                 (None, emit (StreamRoute sid) (addStreamToQueue sid 1 (routeToAI sid 1 st1)))))"

text \<open>
  The constructors: a processor with empty queue and active set, not running; the service
  builds buffer, router and processor (with the default ceiling of five) and starts the
  processor.
\<close>

definition new_System :: "nat \<Rightarrow> nat \<Rightarrow> System" where
  "new_System bufferSize maxConcurrent =
     \<lparr> streamBuffer = new_StreamBuffer bufferSize, routerQueue = [], activeRoutes = [],
       processingQueue = [], jobs = [], activeProcessing = [],
       maxConcurrentStreams = maxConcurrent, processingMetrics = Map.empty,
       isProcessing = False, activeStreams = Map.empty, userSessions = Map.empty,
       passes = [], retryTimers = [], emitted = [] \<rparr>"

definition new_StreamIngestionService :: "nat \<Rightarrow> System" where
  "new_StreamIngestionService bufferSize = start (new_System bufferSize 5)"

section \<open>Runs of the server\<close>

text \<open>
  Everything that can happen to the server, one action at a time: the calls of the
  facade, the public calls of router and processor, and the continuations that the event
  loop runs (a timer calling \<open>processNextBatch\<close>, a batch settling, a pause ending, a retry
  timer firing). JavaScript runs each of them to its next \<open>await\<close> without interleaving,
  so an action is a function on the state. \<open>Tick\<close> may come at any time, whether or not a
  timer is pending.
\<close>

datatype Action =
    AddVideoStream VideoStream
  | RouteToProcessor StreamId
  | HandleDisconnection StreamId
  | AddFrameToBuffer StreamId VideoFrame
  | GetNextFrame StreamId
  | GetFrames StreamId nat
  | RouteToAI StreamId int
  | RemoveRoute StreamId
  | AddStreamToQueue StreamId int
  | RemoveStreamFromQueue StreamId
  | Start
  | Stop
  | Tick
  | BatchDone nat bool
  | YieldDone nat bool
  | RetryFire nat

fun step :: "Action \<Rightarrow> System \<Rightarrow> System" where
  "step (AddVideoStream stream) st = snd (addVideoStream stream st)"
| "step (RouteToProcessor sid) st = snd (routeToProcessor sid st)"
| "step (HandleDisconnection sid) st = handleDisconnection sid st"
| "step (AddFrameToBuffer sid frame) st = snd (addFrameToBuffer sid frame st)"
| "step (GetNextFrame sid) st = snd (svc_getNextFrame sid st)"
| "step (GetFrames sid n) st = snd (svc_getFrames sid n st)"
| "step (RouteToAI sid p) st = routeToAI sid p st"
| "step (RemoveRoute sid) st = removeRoute sid st"
| "step (AddStreamToQueue sid p) st = addStreamToQueue sid p st"
| "step (RemoveStreamFromQueue sid) st = removeStreamFromQueue sid st"
| "step Start st = start st"
| "step Stop st = stop st"
| "step Tick st = processNextBatch st"
| "step (BatchDone i ok) st = batchDone i ok st"
| "step (YieldDone i rejected) st = yieldDone i rejected st"
| "step (RetryFire k) st = retryFire k st"

definition run :: "Action list \<Rightarrow> System \<Rightarrow> System" where
  "run acts st = fold step acts st"

text \<open>The stream an action admits to the job queue by name, if it is one.\<close>

fun admits :: "Action \<Rightarrow> System \<Rightarrow> StreamId list" where
  "admits (RouteToProcessor sid) st = [sid]"
| "admits (RouteToAI sid p) st = [sid]"
| "admits (AddStreamToQueue sid p) st = [sid]"
| "admits (RetryFire k) st = map fst (take 1 (drop k (retryTimers st)))"
| "admits _ st = []"

definition queued :: "StreamId \<Rightarrow> System \<Rightarrow> bool" where
  "queued sid st = (map_of (processingQueue st) sid \<noteq> None)"

definition active :: "StreamId \<Rightarrow> System \<Rightarrow> bool" where
  "active sid st = (sid \<in> set (activeProcessing st))"

definition jobPriority :: "StreamId \<Rightarrow> System \<Rightarrow> int option" where
  "jobPriority sid st =
     (case map_of (processingQueue st) sid of
        None \<Rightarrow> None
      | Some a \<Rightarrow> Some (priority (jobs st ! a)))"

definition jobEntries :: "StreamId \<Rightarrow> System \<Rightarrow> nat" where
  "jobEntries sid st = length (filter (\<lambda>e. fst e = sid) (processingQueue st))"

definition routeEntries :: "StreamId \<Rightarrow> System \<Rightarrow> nat" where
  "routeEntries sid st = length (filter (\<lambda>e. fst e = sid) (routerQueue st))"

text \<open>The state without its event log.\<close>

definition forgetEvents :: "System \<Rightarrow> System" where
  "forgetEvents st = st\<lparr>emitted := []\<rparr>"

fun isStreamError :: "Event \<Rightarrow> bool" where
  "isStreamError (StreamError _ _) = True"
| "isStreamError _ = False"

fun isRetryOrFailure :: "Event \<Rightarrow> bool" where
  "isRetryOrFailure (ProcessingRetry _ _ _) = True"
| "isRetryOrFailure (ProcessingFailed _ _) = True"
| "isRetryOrFailure _ = False"

text \<open>
  The streams that are at once in the active set and in the job queue, and the two
  bounds the claims speak of.
\<close>

definition overlap :: "System \<Rightarrow> StreamId set" where
  "overlap st = set (activeProcessing st) \<inter> fst ` set (processingQueue st)"

definition withinCeiling :: "System \<Rightarrow> bool" where
  "withinCeiling st = (length (activeProcessing st) \<le> maxConcurrentStreams st)"

text \<open>The streams that the actions of a run admit by name, each at the state it meets.\<close>

fun admitted :: "Action list \<Rightarrow> System \<Rightarrow> StreamId list" where
  "admitted [] st = []"
| "admitted (a # acts) st = admits a st @ admitted acts (step a st)"

text \<open>
  \<open>preserves S st st'\<close>: from \<open>st\<close> to \<open>st'\<close> the ceiling is the same number, the active
  set stays within it if it was, and no stream outside \<open>S\<close> has come to be both active and
  queued.
\<close>

definition preserves :: "StreamId set \<Rightarrow> System \<Rightarrow> System \<Rightarrow> bool" where
  "preserves S st st' =
     (maxConcurrentStreams st' = maxConcurrentStreams st
      \<and> (withinCeiling st \<longrightarrow> withinCeiling st')
      \<and> overlap st' \<subseteq> overlap st \<union> S)"

fun isBufferEvent :: "Event \<Rightarrow> bool" where
  "isBufferEvent (BufferHighWater _ _) = True"
| "isBufferEvent (FrameAdded _ _ _) = True"
| "isBufferEvent (BufferLowWater _ _) = True"
| "isBufferEvent (FrameRetrieved _ _ _) = True"
| "isBufferEvent (FramesRetrieved _ _ _) = True"
| "isBufferEvent (BufferCleared _ _) = True"
| "isBufferEvent (BufferRemoved _ _) = True"
| "isBufferEvent (BufferOverflow _ _ _) = True"
| "isBufferEvent _ = False"

text \<open>
  The job store is sound when every address held by the queue or by a retry timer is
  allocated and leads to a job of that stream.
\<close>

definition jobRef :: "System \<Rightarrow> StreamId \<Rightarrow> nat \<Rightarrow> bool" where
  "jobRef st sid a = (a < length (jobs st) \<and> job_streamId (jobs st ! a) = sid)"

definition storeOk :: "System \<Rightarrow> bool" where
  "storeOk st =
     (list_all (\<lambda>e. jobRef st (fst e) (snd e)) (processingQueue st)
      \<and> list_all (\<lambda>t. jobRef st (fst t) (fst (snd t))) (retryTimers st))"

text \<open>
  The lists that stand for a \<open>Map\<close> or a \<open>Set\<close> are faithful when no key and no member
  occurs twice.
\<close>

definition mapsOk :: "System \<Rightarrow> bool" where
  "mapsOk st =
     (distinct (map fst (processingQueue st)) \<and> distinct (map fst (routerQueue st))
      \<and> distinct (activeProcessing st) \<and> distinct (activeRoutes st))"

text \<open>Stream descriptions for the concrete runs below.\<close>

definition okConfig :: StreamConfig where
  "okConfig = \<lparr> resolution = Some \<lparr> width = Finite 1280, height = Finite 720 \<rparr>,
                frameRate = Finite 30, bitrate = Finite 2000000, audioEnabled = True \<rparr>"

definition streamA1 :: VideoStream where
  "streamA1 = \<lparr> streamId = ''A'', userId = ''u1'', config = Some okConfig,
                frames = Some [mkFrame 0, mkFrame 1] \<rparr>"

definition streamA2 :: VideoStream where
  "streamA2 = \<lparr> streamId = ''A'', userId = ''u2'', config = Some okConfig,
                frames = Some [mkFrame 2] \<rparr>"

text \<open>Six streams that each push one frame.\<close>

definition sixPushes :: "Action list" where
  "sixPushes = map (\<lambda>s. AddFrameToBuffer s (mkFrame 0))
                 [''s1'', ''s2'', ''s3'', ''s4'', ''s5'', ''s6'']"

text \<open>
  One frame is pushed, the enhancement of its batch fails, and the pass ends; \<open>rejected\<close>
  says whether the promise of \<open>processStream\<close> rejects at the end.
\<close>

definition failingRun :: "bool \<Rightarrow> Action list" where
  "failingRun rejected =
     [AddFrameToBuffer ''s'' (mkFrame 0), BatchDone 0 False, YieldDone 0 rejected]"

text \<open>
  The session table is consistent when every entry leads to the record of a stream of
  the user it is filed under.
\<close>

definition sessionsOk :: "System \<Rightarrow> bool" where
  "sessionsOk st =
     (\<forall>u sid. userSessions st u = Some sid \<longrightarrow>
        (\<exists>stream. activeStreams st sid = Some stream \<and> userId stream = u))"

text \<open>
  A stream id is unique to its stream: \<open>acceptStream\<close> draws a fresh one
  (\<open>generateStreamId\<close>) for every connection. A run keeps stream ids unique when no
  stream is added under an id that, at that moment, the record of another user's stream
  holds.
\<close>

fun registersOwnId :: "Action \<Rightarrow> System \<Rightarrow> bool" where
  "registersOwnId (AddVideoStream stream) st =
     (case activeStreams st (streamId stream) of
        None \<Rightarrow> True
      | Some held \<Rightarrow> userId held = userId stream)"
| "registersOwnId _ st = True"

fun uniqueIds :: "Action list \<Rightarrow> System \<Rightarrow> bool" where
  "uniqueIds [] st = True"
| "uniqueIds (a # acts) st = (registersOwnId a st \<and> uniqueIds acts (step a st))"

text \<open>
  Two users add a stream under the same stream id, then it is disconnected twice: a run
  that does not keep stream ids unique.
\<close>

definition twoOwners :: "Action list" where
  "twoOwners = [AddVideoStream streamA1, AddVideoStream streamA2,
                HandleDisconnection ''A'', HandleDisconnection ''A'']"

text \<open>A user adds a stream, routes it, replaces it by a second one, and pushes a frame.\<close>

definition streamB1 :: VideoStream where
  "streamB1 = \<lparr> streamId = ''B'', userId = ''u1'', config = Some okConfig,
                frames = Some [mkFrame 3] \<rparr>"

definition supersedingRun :: "Action list" where
  "supersedingRun = [AddVideoStream streamA1, RouteToProcessor ''A'', AddVideoStream streamB1,
                     AddFrameToBuffer ''B'' (mkFrame 4)]"

text \<open>A 3840 by 2160 stream at 120 frames per second, without frames.\<close>

definition uhdStream :: VideoStream where
  "uhdStream = \<lparr> streamId = ''A'', userId = ''u1'',
       config = Some \<lparr> resolution = Some \<lparr> width = Finite 3840, height = Finite 2160 \<rparr>,
                       frameRate = Finite 120, bitrate = Finite 1, audioEnabled = False \<rparr>,
       frames = None \<rparr>"

text \<open>
  A stream description whose config carries no resolution:
  \<open>{streamId: 'A', userId: 'u1', config: {frameRate: 30, bitrate: 2000000,
  audioEnabled: true}, frames: [f0, f1]}\<close>.
\<close>

definition noResolutionStream :: VideoStream where
  "noResolutionStream = \<lparr> streamId = ''A'', userId = ''u1'',
       config = Some \<lparr> resolution = None, frameRate = Finite 30, bitrate = Finite 2000000,
                       audioEnabled = True \<rparr>,
       frames = Some [mkFrame 0, mkFrame 1] \<rparr>"

text \<open>
  A stream description of the declared type whose frame rate is \<open>NaN\<close>:
  \<open>{streamId: 'A', userId: 'u1', config: {resolution: {width: 1280, height: 720},
  frameRate: NaN, bitrate: 2000000, audioEnabled: true}, frames: [f0, f1]}\<close>.
\<close>

definition nanRateStream :: VideoStream where
  "nanRateStream = \<lparr> streamId = ''A'', userId = ''u1'',
       config = Some \<lparr> resolution = Some \<lparr> width = Finite 1280, height = Finite 720 \<rparr>,
                       frameRate = NaN, bitrate = Finite 2000000, audioEnabled = True \<rparr>,
       frames = Some [mkFrame 0, mkFrame 1] \<rparr>"

section \<open>Facts about the frame buffer\<close>

lemma size_contents: "getBufferSize sid b = length (bufferContents sid b)"
  by (simp add: getBufferSize_def bufferContents_def split: option.splits)

lemma addFrame_full:
  assumes "maxBufferSize b \<le> getBufferSize sid b"
  shows "addFrame sid frame b =
           (False, [BufferOverflow sid ((3 * maxBufferSize b) div 10)
                      (getBufferSize sid b - (3 * maxBufferSize b) div 10)],
            b\<lparr>buffers := (buffers b)(sid \<mapsto> drop ((3 * maxBufferSize b) div 10) (bufferContents sid b))\<rparr>)"
  using assms
  by (auto simp: addFrame_def handleOverflow_def getBufferSize_def bufferContents_def Let_def split: option.splits)

lemma addFrame_room:
  assumes "getBufferSize sid b < maxBufferSize b"
  shows "addFrame sid frame b =
           (True,
            (if Suc (getBufferSize sid b) = highWaterMark b
             then [BufferHighWater sid (Suc (getBufferSize sid b))] else [])
            @ [FrameAdded sid (Suc (getBufferSize sid b)) (frame_timestamp frame)],
            b\<lparr>buffers := (buffers b)(sid \<mapsto> bufferContents sid b @ [frame])\<rparr>)"
  using assms
  by (auto simp: addFrame_def getBufferSize_def bufferContents_def Let_def split: option.splits)

lemma contents_upd [simp]:
  "bufferContents s (b\<lparr>buffers := (buffers b)(sid \<mapsto> xs)\<rparr>) = (if s = sid then xs else bufferContents s b)"
  by (simp add: bufferContents_def)

lemma max_upd [simp]: "maxBufferSize (b\<lparr>buffers := m\<rparr>) = maxBufferSize b"
  by simp

lemma addFrame_contents:
  "bufferContents s (snd (snd (addFrame sid frame b))) =
     (if s = sid then
        (if maxBufferSize b \<le> getBufferSize sid b
         then drop ((3 * maxBufferSize b) div 10) (bufferContents sid b)
         else bufferContents sid b @ [frame])
      else bufferContents s b)"
  by (cases "maxBufferSize b \<le> getBufferSize sid b") (simp_all add: addFrame_full addFrame_room)

lemma addFrame_max: "maxBufferSize (snd (snd (addFrame sid frame b))) = maxBufferSize b"
  by (cases "maxBufferSize b \<le> getBufferSize sid b") (simp_all add: addFrame_full addFrame_room)

lemma getNextFrame_eq:
  "getNextFrame sid b =
     (case bufferContents sid b of
        [] \<Rightarrow> (None, [], b)
      | frame # rest \<Rightarrow>
          (Some frame,
           (if length rest = lowWaterMark b then [BufferLowWater sid (length rest)] else [])
           @ [FrameRetrieved sid (length rest) (frame_timestamp frame)],
           b\<lparr>buffers := (buffers b)(sid \<mapsto> rest)\<rparr>))"
  by (simp add: getNextFrame_def bufferContents_def split: option.splits list.splits)

lemma getFrames_eq:
  "getFrames sid n b =
     (case bufferContents sid b of
        [] \<Rightarrow> ([], [], b)
      | x # xs \<Rightarrow>
          (take n (x # xs),
           [FramesRetrieved sid (min n (length (x # xs))) (length (x # xs) - n)],
           b\<lparr>buffers := (buffers b)(sid \<mapsto> drop n (x # xs))\<rparr>))"
  by (simp add: getFrames_def bufferContents_def Let_def min_def split: option.splits list.splits)

lemma getFrames_frames: "fst (getFrames sid n b) = take n (bufferContents sid b)"
  by (simp add: getFrames_eq split: list.splits)

lemma getFrames_contents:
  "bufferContents s (snd (snd (getFrames sid n b))) =
     (if s = sid then drop n (bufferContents sid b) else bufferContents s b)"
  by (simp add: getFrames_eq split: list.splits)

lemma getFrames_max: "maxBufferSize (snd (snd (getFrames sid n b))) = maxBufferSize b"
  by (simp add: getFrames_eq split: list.splits)

lemma getNextFrame_contents:
  "bufferContents s (snd (snd (getNextFrame sid b))) =
     (if s = sid then tl (bufferContents sid b) else bufferContents s b)"
  by (simp add: getNextFrame_eq split: list.splits)

lemma getNextFrame_frame:
  "(case fst (getNextFrame sid b) of None \<Rightarrow> [] | Some f \<Rightarrow> [f]) = take 1 (bufferContents sid b)"
  by (simp add: getNextFrame_eq split: list.splits)

lemma getNextFrame_max: "maxBufferSize (snd (snd (getNextFrame sid b))) = maxBufferSize b"
  by (simp add: getNextFrame_eq split: list.splits)

lemma bufferOp_out:
  "fst (bufferOp op b) = (case op of Push s f \<Rightarrow> [] | Pop s \<Rightarrow> take 1 (bufferContents s b) | Drain s n \<Rightarrow> take n (bufferContents s b))"
  by (cases op) (simp_all add: getFrames_frames getNextFrame_frame)

lemma bufferOp_contents:
  "bufferContents s (snd (snd (bufferOp op b))) =
    (case op of
       Push sid f \<Rightarrow> (if s = sid then
        (if maxBufferSize b \<le> getBufferSize sid b
         then drop ((3 * maxBufferSize b) div 10) (bufferContents sid b)
         else bufferContents sid b @ [f])
      else bufferContents s b)
     | Pop sid \<Rightarrow> (if s = sid then drop 1 (bufferContents sid b) else bufferContents s b)
     | Drain sid n \<Rightarrow> (if s = sid then drop n (bufferContents sid b) else bufferContents s b))"
  by (cases op) (simp_all add: addFrame_contents getNextFrame_contents getFrames_contents drop_Suc)

lemma bufferOp_max: "maxBufferSize (snd (snd (bufferOp op b))) = maxBufferSize b"
  by (cases op) (simp_all add: addFrame_max getNextFrame_max getFrames_max)

lemma bufferRun_Cons:
  "bufferRun (op # ops) b =
     ((opStream op, fst (bufferOp op b)) # fst (bufferRun ops (snd (snd (bufferOp op b)))),
      fst (snd (bufferOp op b)) @ fst (snd (bufferRun ops (snd (snd (bufferOp op b))))),
      snd (snd (bufferRun ops (snd (snd (bufferOp op b))))))"
  by (simp add: Let_def)

lemma pushed_Cons: "pushed sid (op # ops) = pushed sid [op] @ pushed sid ops"
  by (cases op) simp_all

lemma bufferOp_subseq:
  "subseq ((if opStream op = sid then fst (bufferOp op b) else [])
             @ bufferContents sid (snd (snd (bufferOp op b))))
          (bufferContents sid b @ pushed sid [op])"
proof (cases op)
  case (Push s f)
  then show ?thesis
    by (auto simp: addFrame_contents intro: subseq_rev_drop_many suffix_imp_subseq suffix_drop)
next
  case (Pop s)
  then show ?thesis
    by (simp add: getNextFrame_contents getNextFrame_frame drop_Suc flip: take_Suc_conv_app_nth)
       (metis append_take_drop_id drop_Suc drop0 subseq_order.order_refl take_Suc take_0)
next
  case (Drain s n)
  then show ?thesis
    by (simp add: getFrames_contents getFrames_frames)
qed

lemma run_subseq:
  "subseq (returned sid (fst (bufferRun ops b))) (bufferContents sid b @ pushed sid ops)"
proof (induction ops arbitrary: b)
  case Nil
  then show ?case by simp
next
  case (Cons op ops)
  let ?b1 = "snd (snd (bufferOp op b))"
  let ?out = "if opStream op = sid then fst (bufferOp op b) else []"
  have "subseq (returned sid (fst (bufferRun ops ?b1))) (bufferContents sid ?b1 @ pushed sid ops)"
    by (rule Cons.IH)
  then have a: "subseq (?out @ returned sid (fst (bufferRun ops ?b1)))
                    (?out @ bufferContents sid ?b1 @ pushed sid ops)"
    by (simp only: subseq_append')
  have "subseq ((?out @ bufferContents sid ?b1) @ pushed sid ops)
               ((bufferContents sid b @ pushed sid [op]) @ pushed sid ops)"
    by (rule list_emb_append_mono[OF bufferOp_subseq]) simp
  then have b: "subseq (?out @ bufferContents sid ?b1 @ pushed sid ops)
                       (bufferContents sid b @ pushed sid (op # ops))"
    by (simp only: append_assoc pushed_Cons[of sid op ops])
  have c: "returned sid (fst (bufferRun (op # ops) b)) = ?out @ returned sid (fst (bufferRun ops ?b1))"
    by (simp only: bufferRun_Cons fst_conv returned.simps)
  show ?case
    unfolding c by (rule subseq_order.order_trans[OF a b])
qed

lemma size_inv_op:
  assumes "getBufferSize sid b \<le> maxBufferSize b"
  shows "getBufferSize sid (snd (snd (bufferOp op b))) \<le> maxBufferSize b"
  using assms unfolding size_contents
  by (cases op) (auto simp: addFrame_contents getNextFrame_contents getFrames_contents size_contents)

lemma size_inv_run:
  "getBufferSize sid b \<le> maxBufferSize b \<Longrightarrow>
   getBufferSize sid (snd (snd (bufferRun ops b))) \<le> maxBufferSize b
   \<and> maxBufferSize (snd (snd (bufferRun ops b))) = maxBufferSize b"
proof (induction ops arbitrary: b)
  case Nil
  then show ?case by simp
next
  case (Cons op ops)
  let ?b1 = "snd (snd (bufferOp op b))"
  have "getBufferSize sid ?b1 \<le> maxBufferSize ?b1"
    using size_inv_op[OF Cons.prems] by (simp add: bufferOp_max)
  from Cons.IH[OF this] show ?case
    by (simp only: bufferRun_Cons snd_conv bufferOp_max) 
qed


lemma new_buffer_size: "getBufferSize sid (new_StreamBuffer cap) \<le> maxBufferSize (new_StreamBuffer cap)"
  by (simp add: new_StreamBuffer_def getBufferSize_def)

lemma run35_overflow:
  "filter isOverflow (fst (snd (bufferRun pushes35 (new_StreamBuffer 30)))) = [BufferOverflow ''s1'' 9 21]"
  by code_simp

lemma run35_size: "getBufferSize ''s1'' (snd (snd (bufferRun pushes35 (new_StreamBuffer 30)))) = 25"
  by code_simp

lemma run31_size: "getBufferSize ''s1'' (snd (snd (bufferRun pushes31 (new_StreamBuffer 30)))) = 21"
  by code_simp

section \<open>Claims about the frame buffer\<close>

text \<open>
  Claim C1, as stated, fails: after 35 pushes to a fresh stream of capacity 30 the buffer
  holds 25 frames, not 26, because the push that overflows returns \<open>false\<close> without
  appending its frame.
\<close>

theorem C1_counterexample:
  "getBufferSize ''s1'' (snd (snd (bufferRun pushes35 (new_StreamBuffer 30)))) \<noteq> 26"
  by (simp add: run35_size)

text \<open>
  Claim C1, amended: a push to a buffer at capacity evicts the oldest
  \<open>\<lfloor>0.3 \<sqdot> capacity\<rfloor>\<close> frames, emits one overflow event carrying the number evicted, and
  returns \<open>false\<close> with the new frame left out; a push below capacity returns \<open>true\<close>,
  emits no overflow and appends the frame. Pushing 35 frames one at a time to a fresh
  stream of capacity 30 gives exactly one overflow event, reporting 9 evicted frames, and
  a final size of 25.
\<close>

theorem C1_push_at_capacity:
  "(maxBufferSize b \<le> getBufferSize sid b \<longrightarrow>
      addFrame sid frame b =
        (False,
         [BufferOverflow sid ((3 * maxBufferSize b) div 10)
            (getBufferSize sid b - (3 * maxBufferSize b) div 10)],
         b\<lparr>buffers := (buffers b)(sid \<mapsto>
              drop ((3 * maxBufferSize b) div 10) (bufferContents sid b))\<rparr>))
   \<and> (getBufferSize sid b < maxBufferSize b \<longrightarrow>
      fst (addFrame sid frame b)
      \<and> filter isOverflow (fst (snd (addFrame sid frame b))) = []
      \<and> bufferContents sid (snd (snd (addFrame sid frame b))) = bufferContents sid b @ [frame])
   \<and> filter isOverflow (fst (snd (bufferRun pushes35 (new_StreamBuffer 30))))
        = [BufferOverflow ''s1'' 9 21]
   \<and> getBufferSize ''s1'' (snd (snd (bufferRun pushes35 (new_StreamBuffer 30)))) = 25"
proof -
  have full: "addFrame sid frame b =
        (False,
         [BufferOverflow sid ((3 * maxBufferSize b) div 10)
            (getBufferSize sid b - (3 * maxBufferSize b) div 10)],
         b\<lparr>buffers := (buffers b)(sid \<mapsto>
              drop ((3 * maxBufferSize b) div 10) (bufferContents sid b))\<rparr>)"
    if "maxBufferSize b \<le> getBufferSize sid b"
    using that by (rule addFrame_full)
  have room: "fst (addFrame sid frame b)
      \<and> filter isOverflow (fst (snd (addFrame sid frame b))) = []
      \<and> bufferContents sid (snd (snd (addFrame sid frame b))) = bufferContents sid b @ [frame]"
    if "getBufferSize sid b < maxBufferSize b"
    using that by (simp add: addFrame_room)
  show ?thesis
    using full room run35_overflow run35_size by blast
qed

text \<open>Both cases of C1 occur: the 31st and the first push to a stream of capacity 30.\<close>

theorem C1_witness:
  "maxBufferSize (snd (snd (bufferRun (take 30 pushes35) (new_StreamBuffer 30))))
     \<le> getBufferSize ''s1'' (snd (snd (bufferRun (take 30 pushes35) (new_StreamBuffer 30))))
   \<and> fst (addFrame ''s1'' (mkFrame 30) (snd (snd (bufferRun (take 30 pushes35) (new_StreamBuffer 30))))) = False
   \<and> getBufferSize ''s1'' (new_StreamBuffer 30) < maxBufferSize (new_StreamBuffer 30)
   \<and> fst (addFrame ''s1'' (mkFrame 0) (new_StreamBuffer 30))"
proof -
  let ?full = "snd (snd (bufferRun (take 30 pushes35) (new_StreamBuffer 30)))"
  have a: "maxBufferSize ?full \<le> getBufferSize ''s1'' ?full" by code_simp
  have b: "getBufferSize ''s1'' (new_StreamBuffer 30) < maxBufferSize (new_StreamBuffer 30)" by code_simp
  show ?thesis
    using a b C1_push_at_capacity[where b="?full" and sid="''s1''" and frame="mkFrame 30"]
      C1_push_at_capacity[where b="new_StreamBuffer 30" and sid="''s1''" and frame="mkFrame 0"]
    by simp
qed

text \<open>
  Claim C5, as stated, fails: after the overflow caused by the 31st push to a stream of
  capacity 30 (9 frames evicted) the size is 21, not \<open>30 - 9 + 1\<close>.
\<close>

theorem C5_counterexample:
  "filter isOverflow (fst (snd (bufferRun pushes31 (new_StreamBuffer 30)))) = [BufferOverflow ''s1'' 9 21]
   \<and> getBufferSize ''s1'' (snd (snd (bufferRun pushes31 (new_StreamBuffer 30)))) \<noteq> 30 - 9 + 1"
  by code_simp

text \<open>
  Claim C5, amended: after any sequence of pushes, pops and drains on a fresh buffer the
  size of every stream is at most the capacity; and when a push then overflows, it evicts
  \<open>\<lfloor>0.3 \<sqdot> capacity\<rfloor>\<close> frames and leaves the size at capacity minus the evicted count.
\<close>

theorem C5_capacity_invariant:
  "getBufferSize sid (snd (snd (bufferRun ops (new_StreamBuffer cap)))) \<le> cap
   \<and> (\<not> fst (addFrame sid frame (snd (snd (bufferRun ops (new_StreamBuffer cap))))) \<longrightarrow>
        fst (snd (addFrame sid frame (snd (snd (bufferRun ops (new_StreamBuffer cap))))))
          = [BufferOverflow sid ((3 * cap) div 10) (cap - (3 * cap) div 10)]
        \<and> getBufferSize sid (snd (snd (addFrame sid frame (snd (snd (bufferRun ops (new_StreamBuffer cap)))))))
          = cap - (3 * cap) div 10)"
proof -
  let ?b = "snd (snd (bufferRun ops (new_StreamBuffer cap)))"
  have inv: "getBufferSize sid ?b \<le> maxBufferSize (new_StreamBuffer cap)"
    and mx: "maxBufferSize ?b = maxBufferSize (new_StreamBuffer cap)"
    using size_inv_run[where ops=ops and sid=sid and b="new_StreamBuffer cap", OF new_buffer_size] by simp_all
  have cap: "maxBufferSize (new_StreamBuffer cap) = cap"
    by (simp add: new_StreamBuffer_def)
  have le: "getBufferSize sid ?b \<le> cap" using inv cap by simp
  have ov: "fst (snd (addFrame sid frame ?b)) = [BufferOverflow sid ((3 * cap) div 10) (cap - (3 * cap) div 10)]
        \<and> getBufferSize sid (snd (snd (addFrame sid frame ?b))) = cap - (3 * cap) div 10"
    if "\<not> fst (addFrame sid frame ?b)"
  proof -
    have full: "maxBufferSize ?b \<le> getBufferSize sid ?b"
      using that addFrame_room[of sid ?b frame] by (cases "getBufferSize sid ?b < maxBufferSize ?b") simp_all
    then have eq: "getBufferSize sid ?b = cap" using le mx cap by simp
    show ?thesis
      using eq mx cap by (simp add: addFrame_full[OF full] size_contents)
  qed
  show ?thesis using le ov by blast
qed

text \<open>The overflow of C5 at the 31st push to a stream of capacity 30.\<close>

theorem C5_witness:
  "\<not> fst (addFrame ''s1'' (mkFrame 30) (snd (snd (bufferRun (take 30 pushes35) (new_StreamBuffer 30)))))
   \<and> getBufferSize ''s1'' (snd (snd (addFrame ''s1'' (mkFrame 30)
         (snd (snd (bufferRun (take 30 pushes35) (new_StreamBuffer 30))))))) = 21"
proof -
  have a: "\<not> fst (addFrame ''s1'' (mkFrame 30) (snd (snd (bufferRun (take 30 pushes35) (new_StreamBuffer 30)))))"
    by code_simp
  show ?thesis
    using a C5_capacity_invariant[where sid="''s1''" and ops="take 30 pushes35" and cap=30 and frame="mkFrame 30"] by simp
qed

text \<open>
  Claim C8: for any interleaving of pushes, pops and drains, the frames handed back for a
  stream form a subsequence of the frames pushed to it (on a fresh buffer; on any buffer,
  of its contents followed by the pushes); a drain hands back the oldest \<open>n\<close> frames at
  most, in order, and removes exactly those; a pop does so for one frame.
\<close>

theorem C8_fifo_order:
  "subseq (returned sid (fst (bufferRun ops (new_StreamBuffer cap)))) (pushed sid ops)
   \<and> subseq (returned sid (fst (bufferRun ops b))) (bufferContents sid b @ pushed sid ops)
   \<and> fst (getFrames sid n b) = take n (bufferContents sid b)
   \<and> length (fst (getFrames sid n b)) \<le> n
   \<and> bufferContents sid (snd (snd (getFrames sid n b))) = drop n (bufferContents sid b)
   \<and> fst (bufferOp (Pop sid) b) = take 1 (bufferContents sid b)
   \<and> bufferContents sid (snd (snd (bufferOp (Pop sid) b))) = drop 1 (bufferContents sid b)"
proof -
  have "bufferContents sid (new_StreamBuffer cap) = []"
    by (simp add: bufferContents_def new_StreamBuffer_def)
  then have "subseq (returned sid (fst (bufferRun ops (new_StreamBuffer cap)))) (pushed sid ops)"
    using run_subseq[of sid ops "new_StreamBuffer cap"] by simp
  then show ?thesis
    by (simp add: run_subseq getFrames_frames getFrames_contents getNextFrame_frame
        getNextFrame_contents drop_Suc)
qed

text \<open>C8 on three pushes, a pop and a drain.\<close>

theorem C8_witness:
  "returned ''s1'' (fst (bufferRun (take 3 pushes35 @ [Pop ''s1'', Drain ''s1'' 5]) (new_StreamBuffer 30)))
     = [mkFrame 0, mkFrame 1, mkFrame 2]
   \<and> subseq [mkFrame 0, mkFrame 1, mkFrame 2] (pushed ''s1'' (take 3 pushes35 @ [Pop ''s1'', Drain ''s1'' 5]))"
proof -
  have a: "returned ''s1'' (fst (bufferRun (take 3 pushes35 @ [Pop ''s1'', Drain ''s1'' 5]) (new_StreamBuffer 30)))
     = [mkFrame 0, mkFrame 1, mkFrame 2]" by code_simp
  show ?thesis
    using a C8_fifo_order[where sid="''s1''" and ops="take 3 pushes35 @ [Pop ''s1'', Drain ''s1'' 5]" and cap=30] by simp
qed

section \<open>Low-water events of the buffer\<close>







section \<open>Facts about the coordinator\<close>

lemma length_Set_delete: "length (Set_delete x xs) \<le> length xs"
  by (simp add: Set_delete_def length_removeAll_less_eq)

lemma set_Set_delete: "set (Set_delete x xs) = set xs - {x}"
  by (simp add: Set_delete_def)

lemma length_Set_add: "length (Set_add x xs) \<le> Suc (length xs)"
  by (simp add: Set_add_def)

lemma set_Set_add: "set (Set_add x xs) = insert x (set xs)"
  by (auto simp add: Set_add_def)

lemma keys_delete: "fst ` set (AList.delete k al) = fst ` set al - {k}"
  by (induction al) auto

lemma keys_update: "fst ` set (AList.update k v al) = insert k (fst ` set al)"
  by (induction al) auto

text \<open>What each function of the coordinator leaves alone.\<close>

lemma hpe_frame:
  "activeProcessing (handleProcessingError sid st) = activeProcessing st"
  "processingQueue (handleProcessingError sid st) = processingQueue st"
  "maxConcurrentStreams (handleProcessingError sid st) = maxConcurrentStreams st"
  "isProcessing (handleProcessingError sid st) = isProcessing st"
  "streamBuffer (handleProcessingError sid st) = streamBuffer st"
  by (simp_all add: handleProcessingError_def emit_def Let_def split: option.splits)

lemma fin_frame:
  "activeProcessing (processStream_finally sid p e st) = activeProcessing st"
  "processingQueue (processStream_finally sid p e st) = processingQueue st"
  "maxConcurrentStreams (processStream_finally sid p e st) = maxConcurrentStreams st"
  "jobs (processStream_finally sid p e st) = jobs st"
  by (simp_all add: processStream_finally_def emit_def)

lemma settle_frame:
  "activeProcessing (processNextBatch_settle sid r st) = Set_delete sid (activeProcessing st)"
  "processingQueue (processNextBatch_settle sid r st) = processingQueue st"
  "maxConcurrentStreams (processNextBatch_settle sid r st) = maxConcurrentStreams st"
  by (simp_all add: processNextBatch_settle_def Let_def hpe_frame)

lemma loop_frame:
  "processingQueue (processStream_loop sid p e r st) = processingQueue st"
  "maxConcurrentStreams (processStream_loop sid p e r st) = maxConcurrentStreams st"
  "set (activeProcessing (processStream_loop sid p e r st)) \<subseteq> set (activeProcessing st)"
  "length (activeProcessing (processStream_loop sid p e r st)) \<le> length (activeProcessing st)"
  by (auto simp add: processStream_loop_def Let_def settle_frame fin_frame emit_def
      set_Set_delete length_Set_delete split: prod.splits)

lemma pnb_max [simp]: "maxConcurrentStreams (processNextBatch st) = maxConcurrentStreams st"
  by (simp add: processNextBatch_def Let_def loop_frame emit_def split: option.splits)

lemma pnb_ceiling: "withinCeiling st \<Longrightarrow> withinCeiling (processNextBatch st)"
  unfolding withinCeiling_def
proof -
  assume a: "length (activeProcessing st) \<le> maxConcurrentStreams st"
  show "length (activeProcessing (processNextBatch st)) \<le> maxConcurrentStreams (processNextBatch st)"
  proof (cases "\<not> isProcessing st \<or> length (activeProcessing st) \<ge> maxConcurrentStreams st")
    case True
    then show ?thesis using a by (simp add: processNextBatch_def)
  next
    case False
    then have lt: "length (activeProcessing st) < maxConcurrentStreams st" by simp
    show ?thesis
    proof (cases "getNextProcessingJob st")
      case None
      then show ?thesis using a False by (simp add: processNextBatch_def)
    next
      case (Some j)
      let ?sid = "job_streamId (jobs st ! j)"
      let ?st1 = "emit (ProcessingStarted ?sid)
         (st\<lparr>activeProcessing := Set_add ?sid (activeProcessing st),
              processingQueue := AList.delete ?sid (processingQueue st)\<rparr>)"
      have "length (activeProcessing ?st1) \<le> maxConcurrentStreams st"
        using lt length_Set_add[of ?sid "activeProcessing st"] by (simp add: emit_def)
      then have "length (activeProcessing (processStream_loop ?sid 0 0 False ?st1)) \<le> maxConcurrentStreams st"
        using loop_frame(4)[of ?sid 0 0 False ?st1] by linarith
      then show ?thesis using False Some
        by (simp add: processNextBatch_def Let_def loop_frame(2) emit_def)
    qed
  qed
qed

lemma pnb_overlap: "overlap (processNextBatch st) \<subseteq> overlap st"
proof (cases "\<not> isProcessing st \<or> length (activeProcessing st) \<ge> maxConcurrentStreams st")
  case True
  then show ?thesis by (simp add: processNextBatch_def)
next
  case False
  show ?thesis
  proof (cases "getNextProcessingJob st")
    case None
    then show ?thesis using False by (simp add: processNextBatch_def)
  next
    case (Some j)
    let ?sid = "job_streamId (jobs st ! j)"
    let ?st1 = "emit (ProcessingStarted ?sid)
       (st\<lparr>activeProcessing := Set_add ?sid (activeProcessing st),
            processingQueue := AList.delete ?sid (processingQueue st)\<rparr>)"
    have eq: "processNextBatch st = processStream_loop ?sid 0 0 False ?st1"
      using False Some by (simp add: processNextBatch_def Let_def)
    have "overlap ?st1 \<subseteq> overlap st"
      by (auto simp: overlap_def emit_def set_Set_add keys_delete)
    moreover have "overlap (processStream_loop ?sid 0 0 False ?st1) \<subseteq> overlap ?st1"
      using loop_frame(3)[of ?sid 0 0 False ?st1]
      by (auto simp: overlap_def loop_frame(1))
    ultimately show ?thesis unfolding eq by blast
  qed
qed


lemma preserves_refl: "preserves {} st st"
  by (simp add: preserves_def)

lemma preserves_trans:
  "preserves S st st1 \<Longrightarrow> preserves T st1 st2 \<Longrightarrow> preserves (S \<union> T) st st2"
  by (auto simp: preserves_def)

lemma preserves_trans0:
  "preserves {} st st1 \<Longrightarrow> preserves {} st1 st2 \<Longrightarrow> preserves {} st st2"
  using preserves_trans[of "{}" st st1 "{}" st2] by simp

lemma preserves_mono: "preserves S st st' \<Longrightarrow> S \<subseteq> T \<Longrightarrow> preserves T st st'"
  by (auto simp: preserves_def)

lemma preserves_shrink:
  assumes "maxConcurrentStreams st' = maxConcurrentStreams st"
    and "length (activeProcessing st') \<le> length (activeProcessing st)"
    and "set (activeProcessing st') \<subseteq> set (activeProcessing st)"
    and "fst ` set (processingQueue st') \<subseteq> fst ` set (processingQueue st)"
  shows "preserves {} st st'"
  using assms by (auto simp: preserves_def withinCeiling_def overlap_def)

lemma preserves_emit: "preserves {} st (emit e st)"
  by (rule preserves_shrink) (simp_all add: emit_def)

lemma preserves_hpe: "preserves {} st (handleProcessingError sid st)"
  by (rule preserves_shrink) (simp_all add: hpe_frame)

lemma preserves_loop: "preserves {} st (processStream_loop sid p e r st)"
  by (rule preserves_shrink) (simp_all add: loop_frame)

lemma preserves_pnb: "preserves {} st (processNextBatch st)"
  using pnb_ceiling[of st] pnb_overlap[of st] by (simp add: preserves_def)

lemma preserves_addStreamToQueue:
  "preserves ({sid} \<inter> set (activeProcessing st)) st (addStreamToQueue sid prio st)"
proof (cases "map_of (processingQueue st) sid")
  case (Some a)
  then show ?thesis
    by (simp add: addStreamToQueue_def preserves_def withinCeiling_def overlap_def)
next
  case None
  let ?job = "\<lparr> job_streamId = sid, priority = prio,
                 frameCount = getBufferSize sid (streamBuffer st), retryCount = 0 \<rparr>"
  let ?st1 = "st\<lparr>jobs := jobs st @ [?job],
                 processingQueue := AList.update sid (length (jobs st)) (processingQueue st)\<rparr>"
  let ?st2 = "emit (QueueAdded sid prio (length (processingQueue ?st1))) ?st1"
  have p2: "preserves ({sid} \<inter> set (activeProcessing st)) st ?st2"
    by (auto simp: preserves_def withinCeiling_def overlap_def emit_def keys_update)
  have p3: "preserves {} ?st2 (if isProcessing ?st2 \<and> length (activeProcessing ?st2) < maxConcurrentStreams ?st2
              then processNextBatch ?st2 else ?st2)"
    by (simp add: preserves_pnb preserves_refl)
  have eq: "addStreamToQueue sid prio st =
      (if isProcessing ?st2 \<and> length (activeProcessing ?st2) < maxConcurrentStreams ?st2
              then processNextBatch ?st2 else ?st2)"
    using None by (simp add: addStreamToQueue_def Let_def)
  show ?thesis
    unfolding eq using preserves_trans[OF p2 p3] by simp
qed

lemma preserves_addStreamToQueue': "preserves {sid} st (addStreamToQueue sid prio st)"
  by (rule preserves_mono[OF preserves_addStreamToQueue]) simp

lemma preserves_removeStreamFromQueue: "preserves {} st (removeStreamFromQueue sid st)"
  by (rule preserves_shrink)
     (auto simp add: removeStreamFromQueue_def Let_def emit_def length_Set_delete set_Set_delete keys_delete)

lemma preserves_start: "preserves {} st (start st)"
proof (cases "isProcessing st")
  case True
  then show ?thesis by (simp add: start_def preserves_refl)
next
  case False
  have a: "preserves {} st (st\<lparr>isProcessing := True\<rparr>)"
    by (rule preserves_shrink) simp_all
  show ?thesis
    using False preserves_trans0[OF preserves_trans0[OF a preserves_pnb] preserves_emit]
    by (simp add: start_def)
qed

lemma preserves_stop: "preserves {} st (stop st)"
  by (rule preserves_shrink) (simp_all add: stop_def emit_def)

lemma preserves_onFrameAdded: "preserves {} st (onFrameAdded sid st)"
proof (cases "map_of (processingQueue st) sid = None \<and> sid \<notin> set (activeProcessing st)")
  case True
  then have "{sid} \<inter> set (activeProcessing st) = {}" by simp
  then show ?thesis
    using True preserves_addStreamToQueue[of sid st 1] by (simp add: onFrameAdded_def)
next
  case False
  then show ?thesis by (auto simp add: onFrameAdded_def preserves_refl)
qed

lemma preserves_onBufferOverflow: "preserves {} st (onBufferOverflow sid st)"
  by (rule preserves_shrink) (simp_all add: onBufferOverflow_def split: option.splits)

lemma preserves_deliver_buffer: "isBufferEvent e \<Longrightarrow> preserves {} st (deliver e st)"
  by (cases e)
     (simp_all add: preserves_emit preserves_trans0[OF preserves_emit preserves_onFrameAdded]
        preserves_trans0[OF preserves_emit preserves_onBufferOverflow])

lemma preserves_fold:
  assumes "\<And>x s. x \<in> set xs \<Longrightarrow> preserves {} s (g x s)"
  shows "preserves {} st (fold g xs st)"
  using assms
proof (induction xs arbitrary: st)
  case Nil
  then show ?case by (simp add: preserves_refl)
next
  case (Cons x xs)
  have "preserves {} st (g x st)" using Cons.prems by simp
  moreover have "preserves {} (g x st) (fold g xs (g x st))"
    using Cons.IH Cons.prems by simp
  ultimately show ?case using preserves_trans0 by simp
qed

lemma preserves_bufferCall:
  assumes "list_all isBufferEvent (fst (snd (f (streamBuffer st))))"
  shows "preserves {} st (snd (bufferCall f st))"
proof -
  obtain r evs b' where f: "f (streamBuffer st) = (r, evs, b')" by (cases "f (streamBuffer st)") auto
  have a: "preserves {} st (st\<lparr>streamBuffer := b'\<rparr>)"
    by (rule preserves_shrink) simp_all
  have b: "preserves {} (st\<lparr>streamBuffer := b'\<rparr>) (fold deliver evs (st\<lparr>streamBuffer := b'\<rparr>))"
    using assms f by (intro preserves_fold preserves_deliver_buffer) (simp add: list_all_iff)
  show ?thesis using preserves_trans0[OF a b] f by (simp add: bufferCall_def)
qed


lemma events_addFrame: "list_all isBufferEvent (fst (snd (addFrame sid frame b)))"
  by (cases "maxBufferSize b \<le> getBufferSize sid b") (simp_all add: addFrame_full addFrame_room)

lemma events_getNextFrame: "list_all isBufferEvent (fst (snd (getNextFrame sid b)))"
  by (simp add: getNextFrame_eq split: list.splits)

lemma events_getFrames: "list_all isBufferEvent (fst (snd (getFrames sid n b)))"
  by (simp add: getFrames_eq split: list.splits)

lemma events_removeStream: "list_all isBufferEvent (fst (removeStream sid b))"
  by (simp add: removeStream_def split: option.splits)

lemma preserves_addFrameToBuffer: "preserves {} st (snd (addFrameToBuffer sid frame st))"
  unfolding addFrameToBuffer_def by (rule preserves_bufferCall) (rule events_addFrame)

lemma preserves_svc_getNextFrame: "preserves {} st (snd (svc_getNextFrame sid st))"
  unfolding svc_getNextFrame_def by (rule preserves_bufferCall) (rule events_getNextFrame)

lemma preserves_svc_getFrames: "preserves {} st (snd (svc_getFrames sid n st))"
  unfolding svc_getFrames_def by (rule preserves_bufferCall) (rule events_getFrames)

lemma preserves_processQueue: "preserves {} st (processQueue st)"
  by (simp add: processQueue_def preserves_refl preserves_emit split: option.splits)

lemma preserves_routeToAI: "preserves {sid} st (routeToAI sid prio st)"
proof -
  let ?st1 = "st\<lparr>routerQueue := AList.update sid prio (routerQueue st),
                 activeRoutes := Set_add sid (activeRoutes st)\<rparr>"
  have a: "preserves {} st ?st1" by (rule preserves_shrink) simp_all
  have b: "preserves {sid} ?st1 (deliver (RouteAdded sid prio) ?st1)"
    using preserves_trans[OF preserves_emit preserves_addStreamToQueue'] by simp
  have c: "preserves {sid} st (deliver (RouteAdded sid prio) ?st1)"
    using preserves_trans[OF a b] by simp
  show ?thesis
    unfolding routeToAI_def using preserves_trans[OF c preserves_processQueue] by simp
qed

lemma preserves_removeRoute: "preserves {} st (removeRoute sid st)"
proof -
  let ?st1 = "st\<lparr>routerQueue := AList.delete sid (routerQueue st),
                 activeRoutes := Set_delete sid (activeRoutes st)\<rparr>"
  have a: "preserves {} st ?st1" by (rule preserves_shrink) simp_all
  have b: "preserves {} ?st1 (deliver (RouteRemoved sid) ?st1)"
    using preserves_trans0[OF preserves_emit preserves_removeStreamFromQueue] by simp
  show ?thesis unfolding removeRoute_def by (rule preserves_trans0[OF a b])
qed

lemma preserves_runRules: "preserves {} st (snd (runRules rules s st))"
  by (induction rules) (auto simp: preserves_refl preserves_emit split: option.splits bool.splits)

lemma preserves_shouldRoute: "preserves {} st (snd (shouldRoute s st))"
  by (simp add: shouldRoute_def preserves_runRules)

lemma preserves_routeToProcessor: "preserves {sid} st (snd (routeToProcessor sid st))"
proof (cases "activeStreams st sid")
  case None
  then show ?thesis
    by (simp add: routeToProcessor_def preserves_mono[OF preserves_refl])
next
  case (Some stream)
  obtain ok st1 where sr: "shouldRoute stream st = (ok, st1)" by (cases "shouldRoute stream st") auto
  have a: "preserves {} st st1" using preserves_shouldRoute[of st stream] sr by simp
  show ?thesis
  proof (cases ok)
    case False
    have "preserves {} st (emit (StreamError sid ''Failed to route stream'') st1)"
      by (rule preserves_trans0[OF a preserves_emit])
    then have "preserves {sid} st (emit (StreamError sid ''Failed to route stream'') st1)"
      by (rule preserves_mono) simp
    then show ?thesis
      using Some sr False by (simp add: routeToProcessor_def)
  next
    case True
    have b: "preserves {sid} st (routeToAI sid 1 st1)"
      using preserves_trans[OF a preserves_routeToAI] by simp
    have c: "preserves {sid} st (addStreamToQueue sid 1 (routeToAI sid 1 st1))"
      using preserves_trans[OF b preserves_addStreamToQueue'[of sid _ 1]] by simp
    have "preserves {sid} st (emit (StreamRoute sid) (addStreamToQueue sid 1 (routeToAI sid 1 st1)))"
      using preserves_trans[OF c preserves_emit] by simp
    then show ?thesis using Some sr True by (simp add: routeToProcessor_def)
  qed
qed

lemma preserves_handleDisconnection: "preserves {} st (handleDisconnection sid st)"
proof -
  let ?st1 = "case activeStreams st sid of
                   None \<Rightarrow> st
                 | Some stream \<Rightarrow>
                     st\<lparr>userSessions := (userSessions st)(userId stream := None),
                        activeStreams := (activeStreams st)(sid := None)\<rparr>"
  let ?st2 = "snd (bufferCall (\<lambda>b. ((), removeStream sid b)) ?st1)"
  have a: "preserves {} st ?st1"
    by (rule preserves_shrink) (simp_all split: option.splits)
  have b: "preserves {} ?st1 ?st2"
    by (rule preserves_bufferCall) (simp add: events_removeStream)
  have c: "preserves {} ?st2 (removeRoute sid ?st2)" by (rule preserves_removeRoute)
  have d: "preserves {} (removeRoute sid ?st2) (removeStreamFromQueue sid (removeRoute sid ?st2))"
    by (rule preserves_removeStreamFromQueue)
  have "preserves {} st (emit (StreamDisconnected sid) (removeStreamFromQueue sid (removeRoute sid ?st2)))"
    by (rule preserves_trans0[OF preserves_trans0[OF preserves_trans0[OF preserves_trans0[OF a b] c] d] preserves_emit])
  then show ?thesis by (simp add: handleDisconnection_def Let_def)
qed

lemma preserves_addVideoStream: "preserves {} st (snd (addVideoStream stream st))"
proof (cases "validateStream stream")
  case (Inl e)
  then show ?thesis by (simp add: addVideoStream_def preserves_refl)
next
  case (Inr validation)
  show ?thesis
  proof (cases "isValid validation")
    case False
    then show ?thesis using Inr by (simp add: addVideoStream_def preserves_refl)
  next
    case True
    let ?st1 = "case userSessions st (userId stream) of
                          None \<Rightarrow> st
                        | Some existingStreamId \<Rightarrow>
                            if existingStreamId = [] then st
                            else handleDisconnection existingStreamId st"
    let ?st2 = "?st1\<lparr>activeStreams := (activeStreams ?st1)(streamId stream \<mapsto> stream),
                      userSessions := (userSessions ?st1)(userId stream \<mapsto> streamId stream)\<rparr>"
    have a: "preserves {} st ?st1"
      by (simp add: preserves_refl preserves_handleDisconnection split: option.splits)
    have b: "preserves {} ?st1 ?st2" by (rule preserves_shrink) simp_all
    have ab: "preserves {} st ?st2" by (rule preserves_trans0[OF a b])
    show ?thesis
    proof (cases "frames stream")
      case None
      then show ?thesis using Inr True ab by (simp add: addVideoStream_def Let_def)
    next
      case (Some fs)
      have c: "preserves {} ?st2 (fold (\<lambda>frame s. snd (addFrameToBuffer (streamId stream) frame s)) fs ?st2)"
        by (rule preserves_fold) (rule preserves_addFrameToBuffer)
      have "preserves {} st (emit (StreamAdded (streamId stream) (userId stream))
              (fold (\<lambda>frame s. snd (addFrameToBuffer (streamId stream) frame s)) fs ?st2))"
        by (rule preserves_trans0[OF preserves_trans0[OF ab c] preserves_emit])
      then show ?thesis using Inr True Some by (simp add: addVideoStream_def Let_def)
    qed
  qed
qed

lemma preserves_batchDone: "preserves {} st (batchDone i ok st)"
  by (rule preserves_shrink)
     (simp_all add: batchDone_def Let_def emit_def split: PassPhase.splits)

lemma preserves_yieldDone: "preserves {} st (yieldDone i r st)"
proof (cases "i < length (passes st) \<and> phase (passes st ! i) = AwaitYield")
  case True
  let ?st1 = "st\<lparr>passes := take i (passes st) @ drop (Suc i) (passes st)\<rparr>"
  have a: "preserves {} st ?st1" by (rule preserves_shrink) simp_all
  show ?thesis
    using True preserves_trans0[OF a preserves_loop] by (simp add: yieldDone_def Let_def)
next
  case False
  then show ?thesis
    by (auto simp add: yieldDone_def Let_def preserves_refl split: PassPhase.splits)
qed

lemma preserves_retryFire: "preserves (set (admits (RetryFire k) st)) st (retryFire k st)"
proof (cases "k < length (retryTimers st)")
  case False
  then show ?thesis by (simp add: retryFire_def preserves_refl)
next
  case True
  obtain sid a d where t: "retryTimers st ! k = (sid, a, d)" by (cases "retryTimers st ! k") auto
  let ?st1 = "st\<lparr>retryTimers := take k (retryTimers st) @ drop (Suc k) (retryTimers st),
                   processingQueue := AList.update sid a (processingQueue st)\<rparr>"
  have adm: "admits (RetryFire k) st = [sid]"
    using True t by (simp add: take_Suc_conv_app_nth hd_drop_conv_nth take_Suc drop_eq_Nil)
  have a: "preserves {sid} st ?st1"
    by (auto simp: preserves_def withinCeiling_def overlap_def keys_update)
  show ?thesis
    using True t adm preserves_trans[OF a preserves_pnb] by (simp add: retryFire_def)
qed

lemma preserves_step: "preserves (set (admits a st)) st (step a st)"
proof (cases a)
  case (RetryFire k)
  then show ?thesis using preserves_retryFire by simp
qed (simp_all add: preserves_addVideoStream preserves_routeToProcessor preserves_handleDisconnection
      preserves_addFrameToBuffer preserves_svc_getNextFrame preserves_svc_getFrames
      preserves_routeToAI preserves_removeRoute preserves_addStreamToQueue'
      preserves_removeStreamFromQueue preserves_start preserves_stop preserves_pnb
      preserves_batchDone preserves_yieldDone)

lemma preserves_run: "preserves (set (admitted acts st)) st (run acts st)"
proof (induction acts arbitrary: st)
  case Nil
  then show ?case by (simp add: run_def preserves_refl)
next
  case (Cons a acts)
  have "preserves (set (admits a st) \<union> set (admitted acts (step a st))) st (run acts (step a st))"
    by (rule preserves_trans[OF preserves_step Cons.IH])
  then show ?case by (simp add: run_def)
qed

lemma overlap_iff: "s \<in> overlap st \<longleftrightarrow> active s st \<and> queued s st"
  by (auto simp: overlap_def active_def queued_def map_of_eq_None_iff)

lemma new_System_ceiling: "withinCeiling (new_System bufferSize maxConcurrent)"
  by (simp add: withinCeiling_def new_System_def)

lemma new_System_max: "maxConcurrentStreams (new_System bufferSize maxConcurrent) = maxConcurrent"
  by (simp add: new_System_def)

lemma new_Service_ceiling: "withinCeiling (new_StreamIngestionService bufferSize)"
  using preserves_start[of "new_System bufferSize 5"] new_System_ceiling
  by (simp add: new_StreamIngestionService_def preserves_def)

lemma new_Service_max: "maxConcurrentStreams (new_StreamIngestionService bufferSize) = 5"
  using preserves_start[of "new_System bufferSize 5"]
  by (simp add: new_StreamIngestionService_def preserves_def new_System_max)

lemma new_Service_overlap: "overlap (new_StreamIngestionService bufferSize) = {}"
  using preserves_start[of "new_System bufferSize 5"]
  by (simp add: new_StreamIngestionService_def preserves_def overlap_def new_System_def)

lemma run_ceiling: "withinCeiling st \<Longrightarrow> withinCeiling (run acts st)"
  using preserves_run[of acts st] by (simp add: preserves_def)

lemma run_max: "maxConcurrentStreams (run acts st) = maxConcurrentStreams st"
  using preserves_run[of acts st] by (simp add: preserves_def)

section \<open>Claims about the coordinator\<close>

text \<open>
  Claim C6: under any sequence of actions (admissions, pushes, timer calls, batch and
  pause continuations, retries, disconnections) the active-processing set never holds
  more streams than \<open>maxConcurrentStreams\<close>, which is 5 for the service; from any state
  within the ceiling every run stays within it; and at the ceiling \<open>processNextBatch\<close>
  returns without activating a stream.
\<close>

theorem C6_concurrency_ceiling:
  "length (activeProcessing (run acts (new_System bufferSize maxConcurrent))) \<le> maxConcurrent
   \<and> length (activeProcessing (run acts (new_StreamIngestionService bufferSize))) \<le> 5
   \<and> card (set (activeProcessing (run acts (new_StreamIngestionService bufferSize)))) \<le> 5
   \<and> (withinCeiling st \<longrightarrow> withinCeiling (run acts st))
   \<and> (maxConcurrentStreams st \<le> length (activeProcessing st) \<longrightarrow> processNextBatch st = st)"
proof -
  have a: "length (activeProcessing (run acts (new_System bufferSize maxConcurrent))) \<le> maxConcurrent"
    using run_ceiling[OF new_System_ceiling, of acts bufferSize maxConcurrent]
    by (simp add: withinCeiling_def run_max new_System_max)
  have b: "length (activeProcessing (run acts (new_StreamIngestionService bufferSize))) \<le> 5"
    using run_ceiling[OF new_Service_ceiling, of acts bufferSize]
    by (simp add: withinCeiling_def run_max new_Service_max)
  have c: "card (set (activeProcessing (run acts (new_StreamIngestionService bufferSize)))) \<le> 5"
    using b card_length[of "activeProcessing (run acts (new_StreamIngestionService bufferSize))"]
    by linarith
  show ?thesis
    using a b c by (simp add: run_ceiling processNextBatch_def)
qed

text \<open>
  C6 on six streams pushing one frame each: five passes start, the sixth stream waits in
  the queue, and a further call of \<open>processNextBatch\<close> changes nothing.
\<close>

theorem C6_witness:
  "withinCeiling (new_StreamIngestionService 30)
   \<and> withinCeiling (run sixPushes (new_StreamIngestionService 30))
   \<and> maxConcurrentStreams (run sixPushes (new_StreamIngestionService 30))
        \<le> length (activeProcessing (run sixPushes (new_StreamIngestionService 30)))
   \<and> processNextBatch (run sixPushes (new_StreamIngestionService 30))
        = run sixPushes (new_StreamIngestionService 30)"
proof -
  have h1: "withinCeiling (new_StreamIngestionService 30)" by code_simp
  have h2: "maxConcurrentStreams (run sixPushes (new_StreamIngestionService 30))
        \<le> length (activeProcessing (run sixPushes (new_StreamIngestionService 30)))" by code_simp
  show ?thesis
    using h1 h2
      C6_concurrency_ceiling[where st="new_StreamIngestionService 30" and acts=sixPushes]
      C6_concurrency_ceiling[where st="run sixPushes (new_StreamIngestionService 30)"]
    by simp
qed

text \<open>
  Claim C3, as stated, fails: a stream is added with two frames (its pass starts at the
  first frame) and then routed to the processor while the pass is in flight; it is then
  both in the active set and in the job queue.
\<close>

theorem C3_counterexample:
  "active ''A'' (run [AddVideoStream streamA1, RouteToProcessor ''A''] (new_StreamIngestionService 30))
   \<and> queued ''A'' (run [AddVideoStream streamA1, RouteToProcessor ''A''] (new_StreamIngestionService 30))"
  by code_simp

text \<open>
  Claim C3, amended: under every sequence of actions, a stream is at once in the active
  set and in the job queue only if it was so at the start or an action of the sequence
  admitted it by name (\<open>routeToProcessor\<close>, \<open>routeToAI\<close>, \<open>addStreamToQueue\<close>, or its
  retry timer); on the service as constructed, only if it was so admitted.
  \<open>processNextBatch\<close> and a frame push never put a stream in both.
\<close>

theorem C3_overlap_only_by_admission:
  "(active sid (run acts st) \<and> queued sid (run acts st) \<longrightarrow>
      (active sid st \<and> queued sid st) \<or> sid \<in> set (admitted acts st))
   \<and> (active sid (run acts (new_StreamIngestionService bufferSize))
        \<and> queued sid (run acts (new_StreamIngestionService bufferSize)) \<longrightarrow>
      sid \<in> set (admitted acts (new_StreamIngestionService bufferSize)))
   \<and> (active sid (processNextBatch st) \<and> queued sid (processNextBatch st) \<longrightarrow>
      active sid st \<and> queued sid st)
   \<and> (active sid (snd (addFrameToBuffer s frame st)) \<and> queued sid (snd (addFrameToBuffer s frame st)) \<longrightarrow>
      active sid st \<and> queued sid st)"
proof -
  have a: "overlap (run acts st) \<subseteq> overlap st \<union> set (admitted acts st)" for st
    using preserves_run[of acts st] by (simp add: preserves_def)
  have b: "overlap (processNextBatch st) \<subseteq> overlap st"
    using preserves_pnb[of st] by (simp add: preserves_def)
  have c: "overlap (snd (addFrameToBuffer s frame st)) \<subseteq> overlap st"
    using preserves_addFrameToBuffer[of st s frame] by (simp add: preserves_def)
  show ?thesis
    using a[of st] a[of "new_StreamIngestionService bufferSize"] b c
    unfolding new_Service_overlap
    by (auto simp flip: overlap_iff)
qed

text \<open>C3 on the run of its counterexample: the stream in both was admitted by name.\<close>

theorem C3_witness:
  "active ''A'' (run [AddVideoStream streamA1, RouteToProcessor ''A''] (new_StreamIngestionService 30))
   \<and> queued ''A'' (run [AddVideoStream streamA1, RouteToProcessor ''A''] (new_StreamIngestionService 30))
   \<and> ''A'' \<in> set (admitted [AddVideoStream streamA1, RouteToProcessor ''A''] (new_StreamIngestionService 30))"
proof -
  have h: "active ''A'' (run [AddVideoStream streamA1, RouteToProcessor ''A''] (new_StreamIngestionService 30))
   \<and> queued ''A'' (run [AddVideoStream streamA1, RouteToProcessor ''A''] (new_StreamIngestionService 30))"
    by code_simp
  show ?thesis
    using h C3_overlap_only_by_admission[where sid="''A''" and bufferSize=30
        and acts="[AddVideoStream streamA1, RouteToProcessor ''A'']"]
    by blast
qed

section \<open>Facts about the retry path\<close>

lemma hpe_absent: "\<not> queued sid st \<Longrightarrow> handleProcessingError sid st = emit (ProcessingFailed sid 0) st"
  by (simp add: handleProcessingError_def queued_def)

lemma hpe_retry:
  "map_of (processingQueue st) sid = Some a \<Longrightarrow> retryCount (jobs st ! a) < 3 \<Longrightarrow>
   emitted (handleProcessingError sid st) =
     emitted st @ [ProcessingRetry sid (Suc (retryCount (jobs st ! a)))
                     (2 ^ Suc (retryCount (jobs st ! a)) * 1000)]
   \<and> retryTimers (handleProcessingError sid st) =
     retryTimers st @ [(sid, a, 2 ^ Suc (retryCount (jobs st ! a)) * 1000)]"
  by (simp add: handleProcessingError_def Let_def emit_def)

lemma batchDone_quiet:
  "filter isRetryOrFailure (emitted (batchDone i ok st)) = filter isRetryOrFailure (emitted st)"
  "retryTimers (batchDone i ok st) = retryTimers st"
  by (simp_all add: batchDone_def Let_def emit_def split: PassPhase.splits)

lemma failingRun_quiet:
  "filter isRetryOrFailure (emitted (run (failingRun False) (new_StreamIngestionService 30))) = []
   \<and> retryTimers (run (failingRun False) (new_StreamIngestionService 30)) = []
   \<and> filter isRetryOrFailure (emitted (run (failingRun True) (new_StreamIngestionService 30)))
        = [ProcessingFailed ''s'' 0]
   \<and> retryTimers (run (failingRun True) (new_StreamIngestionService 30)) = []"
  by code_simp

text \<open>
  Claim C2 at a stream whose enhancement fails. A batch that settles, failed or not,
  emits no retry and no failure event and arms no timer: the failure is caught inside the
  pass. \<open>handleProcessingError\<close> for a stream without a job in the queue reports a
  terminal failure with 0 retries. So in the run where a frame is pushed and its batch
  fails, the pass completes without retry, failure or timer; and when the pass does
  reject at its end, the job having been taken out of the queue when the pass began, the
  failure is terminal at once, with 0 retries and no timer.
\<close>

theorem C2_failing_enhancement_is_not_retried:
  "filter isRetryOrFailure (emitted (batchDone i ok st)) = filter isRetryOrFailure (emitted st)
   \<and> retryTimers (batchDone i ok st) = retryTimers st
   \<and> (\<not> queued sid st \<longrightarrow> handleProcessingError sid st = emit (ProcessingFailed sid 0) st)
   \<and> filter isRetryOrFailure (emitted (run (failingRun False) (new_StreamIngestionService 30))) = []
   \<and> retryTimers (run (failingRun False) (new_StreamIngestionService 30)) = []
   \<and> filter isRetryOrFailure (emitted (run (failingRun True) (new_StreamIngestionService 30)))
        = [ProcessingFailed ''s'' 0]
   \<and> retryTimers (run (failingRun True) (new_StreamIngestionService 30)) = []"
  using failingRun_quiet by (simp add: batchDone_quiet hpe_absent)

text \<open>
  C2 on the service as constructed: the stream has no job, and the error handler reports
  the terminal failure at once.
\<close>

theorem C2_witness:
  "\<not> queued ''s'' (new_StreamIngestionService 30)
   \<and> emitted (handleProcessingError ''s'' (new_StreamIngestionService 30))
       = [ProcessorStarted, ProcessingFailed ''s'' 0]
   \<and> retryTimers (run (failingRun True) (new_StreamIngestionService 30)) = []"
proof -
  have h: "\<not> queued ''s'' (new_StreamIngestionService 30)" by code_simp
  have e: "emitted (new_StreamIngestionService 30) = [ProcessorStarted]" by code_simp
  show ?thesis
    using h e C2_failing_enhancement_is_not_retried[where sid="''s''"
        and st="new_StreamIngestionService 30"]
    by (simp add: emit_def)
qed

section \<open>Facts about the facade\<close>

text \<open>
  Where \<open>validateStream\<close> does what is expected of it: without a config it returns an
  invalid result, and on a config whose resolution is present and whose four numbers are
  finite it returns a result that is valid exactly when the ids are not blank, both axes
  are positive, the frame rate lies in (0,120] and the bitrate is positive.
\<close>

lemma validate_no_config:
  assumes "config s = None"
  shows "\<exists>r. validateStream s = Inr r \<and> \<not> isValid r \<and> errors r \<noteq> []
     \<and> (''No video frames present in stream'' \<in> set (warnings r))
          = (frames s = None \<or> frames s = Some [])"
  using assms by (simp add: validateStream_def Let_def) (auto split: option.splits)

lemma validate_finite:
  assumes "config s = Some c" and "resolution c = Some res"
    and "width res = Finite w" and "height res = Finite h"
    and "frameRate c = Finite f" and "bitrate c = Finite b"
  shows "\<exists>r. validateStream s = Inr r
     \<and> isValid r = (\<not> isBlank (streamId s) \<and> \<not> isBlank (userId s)
                    \<and> 0 < w \<and> 0 < h \<and> 0 < f \<and> f \<le> 120 \<and> 0 < b)
     \<and> isValid r = (errors r = [])
     \<and> (''No video frames present in stream'' \<in> set (warnings r))
          = (frames s = None \<or> frames s = Some [])
     \<and> (''High resolution may impact processing performance'' \<in> set (warnings r))
          = (w > 1920 \<or> h > 1080)"
  using assms by (simp add: validateStream_def Let_def) (auto split: option.splits)

text \<open>
  Where it does not: a config without resolution ends in the \<open>TypeError\<close> of the
  unguarded read, whatever else the description holds; and a number that is \<open>NaN\<close> passes
  its check, since the check asks whether the number is out of range.
\<close>

lemma validate_no_resolution:
  assumes "config s = Some c" and "resolution c = None"
  shows "validateStream s = Inl TypeError"
  using assms by (simp add: validateStream_def Let_def)

lemma validate_nan:
  assumes "config s = Some c" and "resolution c = Some res"
    and "width res = NaN" and "height res = NaN"
    and "frameRate c = NaN" and "bitrate c = NaN"
  shows "\<exists>r. validateStream s = Inr r
     \<and> isValid r = (\<not> isBlank (streamId s) \<and> \<not> isBlank (userId s))"
  using assms by (simp add: validateStream_def Let_def)

lemma validate_frames_irrelevant:
  "map_sum id errors (validateStream (s\<lparr>frames := fs\<rparr>)) = map_sum id errors (validateStream s)"
proof (cases "config s")
  case None
  then show ?thesis by (simp add: validateStream_def Let_def)
next
  case (Some c)
  then show ?thesis by (cases "resolution c") (simp_all add: validateStream_def Let_def)
qed


lemma removeStream_buffers: "buffers (snd (removeStream sid b)) = (buffers b)(sid := None)"
  by (auto simp: removeStream_def split: option.splits)

lemma fun_upd_None_idem: "m k = None \<Longrightarrow> m(k := None) = m"
  by auto

lemma removeStream_eq: "snd (removeStream sid b) = b\<lparr>buffers := (buffers b)(sid := None)\<rparr>"
  by (auto simp: removeStream_def fun_upd_None_idem split: option.splits)

lemma call_removeStream:
  "snd (bufferCall (\<lambda>b. ((), removeStream sid b)) st) =
     st\<lparr>streamBuffer := (streamBuffer st)\<lparr>buffers := (buffers (streamBuffer st))(sid := None)\<rparr>,
        emitted := emitted st @ fst (removeStream sid (streamBuffer st))\<rparr>"
proof (cases "buffers (streamBuffer st) sid")
  case None
  then show ?thesis
    by (simp add: bufferCall_def removeStream_def fun_upd_None_idem)
next
  case (Some xs)
  then show ?thesis
    by (simp add: bufferCall_def removeStream_def emit_def)
qed

lemma removeRoute_eq:
  "removeRoute sid st =
     st\<lparr>routerQueue := AList.delete sid (routerQueue st),
        activeRoutes := Set_delete sid (activeRoutes st),
        processingQueue := AList.delete sid (processingQueue st),
        activeProcessing := Set_delete sid (activeProcessing st),
        processingMetrics := (processingMetrics st)(sid := None),
        emitted := emitted st @ [RouteRemoved sid,
                     QueueRemoved sid (length (AList.delete sid (processingQueue st)))]\<rparr>"
  by (simp add: removeRoute_def removeStreamFromQueue_def emit_def Let_def)

lemma removeStreamFromQueue_eq:
  "removeStreamFromQueue sid st =
     st\<lparr>processingQueue := AList.delete sid (processingQueue st),
        activeProcessing := Set_delete sid (activeProcessing st),
        processingMetrics := (processingMetrics st)(sid := None),
        emitted := emitted st @ [QueueRemoved sid (length (AList.delete sid (processingQueue st)))]\<rparr>"
  by (simp add: removeStreamFromQueue_def emit_def Let_def)

lemma handleDisconnection_eq:
  "handleDisconnection sid st =
     st\<lparr> userSessions := (case activeStreams st sid of
                              None \<Rightarrow> userSessions st
                            | Some stream \<Rightarrow> (userSessions st)(userId stream := None)),
         activeStreams := (activeStreams st)(sid := None),
         streamBuffer := (streamBuffer st)\<lparr>buffers := (buffers (streamBuffer st))(sid := None)\<rparr>,
         routerQueue := AList.delete sid (routerQueue st),
         activeRoutes := Set_delete sid (activeRoutes st),
         processingQueue := AList.delete sid (processingQueue st),
         activeProcessing := Set_delete sid (activeProcessing st),
         processingMetrics := (processingMetrics st)(sid := None),
         emitted := emitted st @ fst (removeStream sid (streamBuffer st))
                    @ [RouteRemoved sid,
                       QueueRemoved sid (length (AList.delete sid (processingQueue st))),
                       QueueRemoved sid (length (AList.delete sid (processingQueue st))),
                       StreamDisconnected sid] \<rparr>"
proof (cases "activeStreams st sid")
  case None
  then show ?thesis
    by (simp add: handleDisconnection_def call_removeStream removeRoute_eq removeStreamFromQueue_eq
        Let_def emit_def Set_delete_def delete_idem fun_upd_None_idem)
next
  case (Some stream)
  then show ?thesis
    by (simp add: handleDisconnection_def call_removeStream removeRoute_eq removeStreamFromQueue_eq
        Let_def emit_def Set_delete_def delete_idem)
qed

lemma handleDisconnection_twice:
  "forgetEvents (handleDisconnection sid (handleDisconnection sid st))
     = forgetEvents (handleDisconnection sid st)"
  by (simp add: handleDisconnection_eq[of sid "handleDisconnection sid st"] forgetEvents_def)
     (simp add: handleDisconnection_eq[of sid st] Set_delete_def delete_idem)


text \<open>
  The session table and the stream records are written by \<open>addVideoStream\<close> and
  \<open>handleDisconnection\<close> only: buffer, router and coordinator never touch them.
\<close>

lemma sess_emit:
  "activeStreams (emit e st) = activeStreams st \<and> userSessions (emit e st) = userSessions st"
  by (simp add: emit_def)

lemma sess_hpe:
  "activeStreams (handleProcessingError sid st) = activeStreams st
   \<and> userSessions (handleProcessingError sid st) = userSessions st"
  by (simp add: handleProcessingError_def emit_def Let_def split: option.splits)

lemma sess_finally:
  "activeStreams (processStream_finally sid p e st) = activeStreams st
   \<and> userSessions (processStream_finally sid p e st) = userSessions st"
  by (simp add: processStream_finally_def emit_def)

lemma sess_settle:
  "activeStreams (processNextBatch_settle sid r st) = activeStreams st
   \<and> userSessions (processNextBatch_settle sid r st) = userSessions st"
  by (simp add: processNextBatch_settle_def Let_def sess_hpe)

lemma sess_loop:
  "activeStreams (processStream_loop sid p e r st) = activeStreams st
   \<and> userSessions (processStream_loop sid p e r st) = userSessions st"
  by (cases "getFrames sid 5 (streamBuffer st)")
     (simp add: processStream_loop_def Let_def sess_settle sess_finally emit_def)

lemma sess_pnb:
  "activeStreams (processNextBatch st) = activeStreams st
   \<and> userSessions (processNextBatch st) = userSessions st"
  by (simp add: processNextBatch_def Let_def sess_loop emit_def split: option.splits)

lemma sess_addStreamToQueue:
  "activeStreams (addStreamToQueue sid prio st) = activeStreams st
   \<and> userSessions (addStreamToQueue sid prio st) = userSessions st"
  by (simp add: addStreamToQueue_def Let_def sess_pnb emit_def split: option.splits)

lemma sess_removeStreamFromQueue:
  "activeStreams (removeStreamFromQueue sid st) = activeStreams st
   \<and> userSessions (removeStreamFromQueue sid st) = userSessions st"
  by (simp add: removeStreamFromQueue_def Let_def emit_def)

lemma sess_start:
  "activeStreams (start st) = activeStreams st \<and> userSessions (start st) = userSessions st"
  by (simp add: start_def sess_pnb emit_def)

lemma sess_stop:
  "activeStreams (stop st) = activeStreams st \<and> userSessions (stop st) = userSessions st"
  by (simp add: stop_def emit_def)

lemma sess_deliver:
  "activeStreams (deliver e st) = activeStreams st \<and> userSessions (deliver e st) = userSessions st"
  by (cases e)
     (simp_all add: onFrameAdded_def onBufferOverflow_def sess_addStreamToQueue
        sess_removeStreamFromQueue sess_emit split: option.splits)

lemma sess_fold_deliver:
  "activeStreams (fold deliver evs st) = activeStreams st
   \<and> userSessions (fold deliver evs st) = userSessions st"
  by (induction evs arbitrary: st) (simp_all add: sess_deliver)

lemma sess_bufferCall:
  "activeStreams (snd (bufferCall f st)) = activeStreams st
   \<and> userSessions (snd (bufferCall f st)) = userSessions st"
  by (cases "f (streamBuffer st)") (simp add: bufferCall_def sess_fold_deliver)

lemma sess_processQueue:
  "activeStreams (processQueue st) = activeStreams st
   \<and> userSessions (processQueue st) = userSessions st"
  by (simp add: processQueue_def sess_emit split: option.splits)

lemma sess_routeToAI:
  "activeStreams (routeToAI sid prio st) = activeStreams st
   \<and> userSessions (routeToAI sid prio st) = userSessions st"
  by (simp add: routeToAI_def sess_processQueue sess_deliver del: deliver.simps)

lemma sess_removeRoute:
  "activeStreams (removeRoute sid st) = activeStreams st
   \<and> userSessions (removeRoute sid st) = userSessions st"
  by (simp add: removeRoute_def sess_deliver del: deliver.simps)

lemma sess_runRules:
  "activeStreams (snd (runRules rules s st)) = activeStreams st
   \<and> userSessions (snd (runRules rules s st)) = userSessions st"
  by (induction rules) (auto simp: sess_emit split: option.splits bool.splits)

lemma sess_routeToProcessor:
  "activeStreams (snd (routeToProcessor sid st)) = activeStreams st
   \<and> userSessions (snd (routeToProcessor sid st)) = userSessions st"
proof (cases "activeStreams st sid")
  case None
  then show ?thesis by (simp add: routeToProcessor_def)
next
  case (Some stream)
  obtain okr st1 where sr: "shouldRoute stream st = (okr, st1)" by (cases "shouldRoute stream st") auto
  have "activeStreams st1 = activeStreams st \<and> userSessions st1 = userSessions st"
    using sess_runRules[of defaultRoutingRules stream st] sr by (simp add: shouldRoute_def)
  then show ?thesis
    using Some sr
    by (simp add: routeToProcessor_def sess_emit sess_addStreamToQueue sess_routeToAI)
qed

lemma sess_batchDone:
  "activeStreams (batchDone i ok st) = activeStreams st
   \<and> userSessions (batchDone i ok st) = userSessions st"
  by (simp add: batchDone_def Let_def emit_def split: PassPhase.splits)

lemma sess_yieldDone:
  "activeStreams (yieldDone i r st) = activeStreams st
   \<and> userSessions (yieldDone i r st) = userSessions st"
  by (simp add: yieldDone_def Let_def sess_loop split: PassPhase.splits)

lemma sess_retryFire:
  "activeStreams (retryFire k st) = activeStreams st
   \<and> userSessions (retryFire k st) = userSessions st"
  by (cases "retryTimers st ! k") (simp add: retryFire_def sess_pnb)

lemma sessionsOk_same:
  assumes "sessionsOk st" and "activeStreams st' = activeStreams st"
    and "userSessions st' = userSessions st"
  shows "sessionsOk st'"
  using assms by (simp add: sessionsOk_def)

lemma session_leads_to_record:
  assumes "sessionsOk st" and "userSessions st u = Some sid"
  obtains stream where "activeStreams st sid = Some stream" and "userId stream = u"
  using assms unfolding sessionsOk_def by blast

lemma no_session_after_disconnection:
  assumes ok: "sessionsOk st"
  shows "userSessions (handleDisconnection sid st) u \<noteq> Some sid"
proof
  assume s: "userSessions (handleDisconnection sid st) u = Some sid"
  show False
  proof (cases "activeStreams st sid")
    case None
    then have "userSessions st u = Some sid" using s by (simp add: handleDisconnection_eq)
    then show False using ok None by (auto elim: session_leads_to_record)
  next
    case (Some stream)
    then have u: "u \<noteq> userId stream" and "userSessions st u = Some sid"
      using s by (auto simp: handleDisconnection_eq split: if_splits)
    then show False using ok Some by (auto elim: session_leads_to_record)
  qed
qed

lemma sessionsOk_handleDisconnection:
  assumes ok: "sessionsOk st"
  shows "sessionsOk (handleDisconnection sid st)"
  unfolding sessionsOk_def
proof (intro allI impI)
  fix u k
  assume s: "userSessions (handleDisconnection sid st) u = Some k"
  have k: "k \<noteq> sid" using s no_session_after_disconnection[OF ok, of sid u] by auto
  have "userSessions st u = Some k"
    using s by (auto simp: handleDisconnection_eq split: option.splits if_splits)
  then obtain str where "activeStreams st k = Some str" "userId str = u"
    using ok by (auto elim: session_leads_to_record)
  then show "\<exists>stream. activeStreams (handleDisconnection sid st) k = Some stream \<and> userId stream = u"
    using k by (simp add: handleDisconnection_eq)
qed

lemma held_after_disconnection:
  "activeStreams (handleDisconnection sid st) k = Some held \<Longrightarrow> activeStreams st k = Some held"
  by (simp add: handleDisconnection_eq split: if_splits)

lemma sessionsOk_addVideoStream:
  assumes ok: "sessionsOk st" and own: "registersOwnId (AddVideoStream stream) st"
  shows "sessionsOk (snd (addVideoStream stream st))"
proof -
  let ?st1 = "case userSessions st (userId stream) of
                          None \<Rightarrow> st
                        | Some existingStreamId \<Rightarrow>
                            if existingStreamId = [] then st
                            else handleDisconnection existingStreamId st"
  let ?st2 = "?st1\<lparr>activeStreams := (activeStreams ?st1)(streamId stream \<mapsto> stream),
                      userSessions := (userSessions ?st1)(userId stream \<mapsto> streamId stream)\<rparr>"
  have ok1: "sessionsOk ?st1"
    using ok by (simp add: sessionsOk_handleDisconnection split: option.splits)
  have held1: "activeStreams st k = Some held" if "activeStreams ?st1 k = Some held" for k held
    using that by (auto split: option.splits if_splits dest: held_after_disconnection)
  have own1: "userId held = userId stream" if "activeStreams ?st1 (streamId stream) = Some held" for held
    using held1[OF that] own by simp
  have ok2: "sessionsOk ?st2"
    unfolding sessionsOk_def
  proof (intro allI impI)
    fix u sid
    assume s: "userSessions ?st2 u = Some sid"
    show "\<exists>str. activeStreams ?st2 sid = Some str \<and> userId str = u"
    proof (cases "u = userId stream")
      case True
      then show ?thesis using s by simp
    next
      case False
      then have "userSessions ?st1 u = Some sid" using s by simp
      then obtain str where str: "activeStreams ?st1 sid = Some str" "userId str = u"
        using ok1 by (auto simp: sessionsOk_def)
      have "sid \<noteq> streamId stream" using str own1 False by auto
      then show ?thesis using str by simp
    qed
  qed
  have ok3: "sessionsOk (fold (\<lambda>frame s. snd (addFrameToBuffer (streamId stream) frame s)) fs ?st2)" for fs
  proof -
    have "activeStreams (fold (\<lambda>frame s. snd (addFrameToBuffer (streamId stream) frame s)) fs s0) = activeStreams s0
        \<and> userSessions (fold (\<lambda>frame s. snd (addFrameToBuffer (streamId stream) frame s)) fs s0) = userSessions s0" for s0
      by (induction fs arbitrary: s0) (simp_all add: addFrameToBuffer_def sess_bufferCall)
    then show ?thesis using ok2 by (intro sessionsOk_same[OF ok2]) simp_all
  qed
  have ok4: "sessionsOk (emit e (fold (\<lambda>frame s. snd (addFrameToBuffer (streamId stream) frame s)) fs ?st2))" for fs e
    by (rule sessionsOk_same[OF ok3[of fs]]) (simp_all add: sess_emit)
  show ?thesis
    using ok ok2 ok4
    by (simp add: addVideoStream_def Let_def split: sum.splits option.splits)
qed

lemma sessionsOk_step:
  assumes ok: "sessionsOk st" and own: "registersOwnId a st"
  shows "sessionsOk (step a st)"
proof (cases a)
  case (AddVideoStream stream)
  then show ?thesis using ok own by (simp add: sessionsOk_addVideoStream)
next
  case (HandleDisconnection sid)
  then show ?thesis using ok by (simp add: sessionsOk_handleDisconnection)
qed (rule sessionsOk_same[OF ok];
     simp add: sess_routeToProcessor addFrameToBuffer_def svc_getNextFrame_def svc_getFrames_def
        sess_bufferCall sess_routeToAI sess_removeRoute sess_addStreamToQueue
        sess_removeStreamFromQueue sess_start sess_stop sess_pnb sess_batchDone sess_yieldDone
        sess_retryFire)+

lemma sessionsOk_run:
  "sessionsOk st \<Longrightarrow> uniqueIds acts st \<Longrightarrow> sessionsOk (run acts st)"
  unfolding run_def by (induction acts arbitrary: st) (simp_all add: sessionsOk_step)

lemma sessionsOk_new: "sessionsOk (new_StreamIngestionService bufferSize)"
  by (simp add: sessionsOk_def new_StreamIngestionService_def sess_start new_System_def)

text \<open>
  The hypothesis on the run cannot be dropped: when a second user adds a stream under a
  stream id that the first user's stream still holds, the record is overwritten, and
  disconnecting that id deletes the session entry of the second user only.
\<close>

lemma shared_id_leaves_stale_session:
  "\<not> uniqueIds twoOwners (new_StreamIngestionService 30)
   \<and> userSessions (run twoOwners (new_StreamIngestionService 30)) ''u1'' = Some ''A''"
proof -
  have a: "\<not> uniqueIds twoOwners (new_StreamIngestionService 30)" by code_simp
  have b: "userSessions (run twoOwners (new_StreamIngestionService 30)) ''u1'' = Some ''A''"
    by code_simp
  show ?thesis using a b by simp
qed

section \<open>Claims about the facade\<close>

text \<open>
  Claim C7: for every stream id and every state, known or unknown, torn down or not,
  disconnecting twice gives the same state as disconnecting once (the event log apart),
  and neither call emits an error event. After the disconnection the stream has no
  buffer (size 0), no router entry and no admission, no job entry, no membership in the
  active-processing set, no metrics and no stream record, and the session entry under
  the user id of its record is deleted. The disconnection cancels nothing that is in
  flight: suspended passes and armed retry timers are left as they were. In every state
  that the service reaches by a run that keeps stream ids unique, no user-session entry
  leads to the stream after one disconnection or after two.
\<close>

theorem C7_disconnection_idempotent:
  "forgetEvents (handleDisconnection sid (handleDisconnection sid st))
     = forgetEvents (handleDisconnection sid st)
   \<and> filter isStreamError (emitted (handleDisconnection sid (handleDisconnection sid st)))
     = filter isStreamError (emitted st)
   \<and> buffers (streamBuffer (handleDisconnection sid st)) sid = None
   \<and> getBufferSize sid (streamBuffer (handleDisconnection sid st)) = 0
   \<and> map_of (routerQueue (handleDisconnection sid st)) sid = None
   \<and> \<not> isRouted sid (handleDisconnection sid st)
   \<and> \<not> queued sid (handleDisconnection sid st)
   \<and> \<not> active sid (handleDisconnection sid st)
   \<and> processingMetrics (handleDisconnection sid st) sid = None
   \<and> activeStreams (handleDisconnection sid st) sid = None
   \<and> userSessions (handleDisconnection sid st)
     = (case activeStreams st sid of
          None \<Rightarrow> userSessions st
        | Some stream \<Rightarrow> (userSessions st)(userId stream := None))
   \<and> passes (handleDisconnection sid st) = passes st
   \<and> retryTimers (handleDisconnection sid st) = retryTimers st
   \<and> (uniqueIds acts (new_StreamIngestionService bufferSize)
        \<and> st = run acts (new_StreamIngestionService bufferSize) \<longrightarrow>
      (\<forall>u. userSessions (handleDisconnection sid st) u \<noteq> Some sid)
      \<and> (\<forall>u. userSessions (handleDisconnection sid (handleDisconnection sid st)) u \<noteq> Some sid))"
proof -
  have ev: "filter isStreamError (fst (removeStream sid b)) = []" for b
    by (simp add: removeStream_def split: option.splits)
  have a: "filter isStreamError (emitted (handleDisconnection sid st)) = filter isStreamError (emitted st)" for st
    by (simp add: handleDisconnection_eq ev)
  have b: "filter isStreamError (emitted (handleDisconnection sid (handleDisconnection sid st)))
     = filter isStreamError (emitted st)"
    by (simp only: a)
  have state: "buffers (streamBuffer (handleDisconnection sid st)) sid = None
     \<and> getBufferSize sid (streamBuffer (handleDisconnection sid st)) = 0
     \<and> map_of (routerQueue (handleDisconnection sid st)) sid = None
     \<and> \<not> isRouted sid (handleDisconnection sid st)
     \<and> \<not> queued sid (handleDisconnection sid st)
     \<and> \<not> active sid (handleDisconnection sid st)
     \<and> processingMetrics (handleDisconnection sid st) sid = None
     \<and> activeStreams (handleDisconnection sid st) sid = None
     \<and> userSessions (handleDisconnection sid st)
       = (case activeStreams st sid of
            None \<Rightarrow> userSessions st
          | Some stream \<Rightarrow> (userSessions st)(userId stream := None))
     \<and> passes (handleDisconnection sid st) = passes st
     \<and> retryTimers (handleDisconnection sid st) = retryTimers st"
    by (simp add: handleDisconnection_eq getBufferSize_def isRouted_def queued_def active_def
          Set_delete_def delete_conv)
  have sessions: "(\<forall>u. userSessions (handleDisconnection sid st) u \<noteq> Some sid)
      \<and> (\<forall>u. userSessions (handleDisconnection sid (handleDisconnection sid st)) u \<noteq> Some sid)"
    if u: "uniqueIds acts (new_StreamIngestionService bufferSize)"
      and r: "st = run acts (new_StreamIngestionService bufferSize)"
  proof -
    have ok: "sessionsOk st"
      unfolding r using sessionsOk_new u by (rule sessionsOk_run)
    then have "sessionsOk (handleDisconnection sid st)"
      by (rule sessionsOk_handleDisconnection)
    then show ?thesis
      using ok by (simp add: no_session_after_disconnection)
  qed
  show ?thesis
    using handleDisconnection_twice[of sid st] b state sessions by blast
qed

text \<open>
  C7 on the run in which a user replaces stream A by stream B: B is being processed and
  the user's session leads to it; after the disconnection of B, or of the stream A that
  was torn down before, no session leads to the disconnected stream.
\<close>

theorem C7_witness:
  "uniqueIds supersedingRun (new_StreamIngestionService 30)
   \<and> userSessions (run supersedingRun (new_StreamIngestionService 30)) ''u1'' = Some ''B''
   \<and> active ''B'' (run supersedingRun (new_StreamIngestionService 30))
   \<and> userSessions (handleDisconnection ''B'' (run supersedingRun (new_StreamIngestionService 30))) ''u1''
       \<noteq> Some ''B''
   \<and> userSessions (handleDisconnection ''A'' (run supersedingRun (new_StreamIngestionService 30))) ''u1''
       \<noteq> Some ''A''
   \<and> \<not> active ''B'' (handleDisconnection ''B'' (run supersedingRun (new_StreamIngestionService 30)))"
proof -
  let ?st = "run supersedingRun (new_StreamIngestionService 30)"
  have u: "uniqueIds supersedingRun (new_StreamIngestionService 30)" by code_simp
  have s: "userSessions ?st ''u1'' = Some ''B''" by code_simp
  have q: "active ''B'' ?st" by code_simp
  have b: "\<forall>u. userSessions (handleDisconnection ''B'' ?st) u \<noteq> Some ''B''"
    using u C7_disconnection_idempotent[where sid="''B''" and st="?st" and acts=supersedingRun and bufferSize=30]
    by blast
  have a: "\<forall>u. userSessions (handleDisconnection ''A'' ?st) u \<noteq> Some ''A''"
    using u C7_disconnection_idempotent[where sid="''A''" and st="?st" and acts=supersedingRun and bufferSize=30]
    by blast
  have n: "\<not> active ''B'' (handleDisconnection ''B'' ?st)"
    using C7_disconnection_idempotent[where sid="''B''" and st="?st" and acts=supersedingRun and bufferSize=30]
    by blast
  show ?thesis
    using u s q a b n by blast
qed

text \<open>
  Claim C9 does not hold of the code. On the stream description whose config has no
  resolution, \<open>validateStream\<close> records the resolution error and then throws a
  \<open>TypeError\<close> at the high-resolution check, which reads the width without the guard that
  the error check has: no result is returned, where the claim promises one with
  \<open>isValid\<close> false. On the stream description whose frame rate is \<open>NaN\<close>, the frame-rate
  check finds the number neither at most 0 nor above 120, so the result is valid and
  without errors, where the claim makes it invalid: \<open>NaN\<close> does not lie in (0,120].
  On the 3840 by 2160 stream without frames the code does as claimed: valid, with the
  performance warning and the no-frames warning.
\<close>

theorem C9_validate_throws_or_accepts:
  "validateStream noResolutionStream = Inl TypeError
   \<and> validateStream nanRateStream = Inr \<lparr> isValid = True, errors = [], warnings = [] \<rparr>
   \<and> validateStream uhdStream =
       Inr \<lparr> isValid = True, errors = [],
             warnings = [''High resolution may impact processing performance'',
                         ''No video frames present in stream''] \<rparr>"
proof -
  have thrown: "validateStream noResolutionStream = Inl TypeError"
    by (rule validate_no_resolution[where c="the (config noResolutionStream)"])
       (simp_all add: noResolutionStream_def)
  have accepted:
    "validateStream nanRateStream = Inr \<lparr> isValid = True, errors = [], warnings = [] \<rparr>"
    by code_simp
  have uhd: "validateStream uhdStream =
       Inr \<lparr> isValid = True, errors = [],
             warnings = [''High resolution may impact processing performance'',
                         ''No video frames present in stream''] \<rparr>"
    by code_simp
  show ?thesis
    using thrown accepted uhd by simp
qed

section \<open>Claims about the low-water signal\<close>










section \<open>Soundness of the job store\<close>

text \<open>
  In every state the service can reach, each address in the queue or in a retry timer is
  allocated and leads to a job of that stream: no lookup in the store is out of range.
\<close>

lemma set_delete_subset: "set (AList.delete k al) \<subseteq> set al"
  by (induction al) auto

lemma set_update_subset: "set (AList.update k v al) \<subseteq> insert (k, v) (set al)"
  by (induction al) auto

lemma storeOk_frame:
  assumes ok: "storeOk st"
    and len: "length (jobs st) \<le> length (jobs st')"
    and ids: "\<And>a. a < length (jobs st) \<Longrightarrow> job_streamId (jobs st' ! a) = job_streamId (jobs st ! a)"
    and q: "\<And>k a. (k, a) \<in> set (processingQueue st') \<Longrightarrow>
               (k, a) \<in> set (processingQueue st) \<or> jobRef st' k a"
    and t: "\<And>k a d. (k, a, d) \<in> set (retryTimers st') \<Longrightarrow>
               (k, a, d) \<in> set (retryTimers st) \<or> jobRef st' k a"
  shows "storeOk st'"
proof -
  have keep: "jobRef st' k a" if "jobRef st k a" for k a
    using that len ids[of a] by (simp add: jobRef_def)
  have "jobRef st' k a" if "(k, a) \<in> set (processingQueue st')" for k a
    using q[OF that] ok keep by (auto simp: storeOk_def list_all_iff)
  moreover have "jobRef st' k a" if "(k, a, d) \<in> set (retryTimers st')" for k a d
    using t[OF that] ok keep by (fastforce simp: storeOk_def list_all_iff)
  ultimately show ?thesis
    by (auto simp: storeOk_def list_all_iff)
qed

lemma storeOk_same:
  assumes "storeOk st" "jobs st' = jobs st"
    "set (processingQueue st') \<subseteq> set (processingQueue st)"
    "set (retryTimers st') \<subseteq> set (retryTimers st)"
  shows "storeOk st'"
  using assms(1) by (rule storeOk_frame) (use assms in auto)

lemma storeOk_emit: "storeOk st \<Longrightarrow> storeOk (emit e st)"
  by (erule storeOk_same) (simp_all add: emit_def)

lemma storeOk_hpe: "storeOk st \<Longrightarrow> storeOk (handleProcessingError sid st)"
proof (cases "map_of (processingQueue st) sid")
  case None
  assume "storeOk st"
  then show ?thesis using None by (simp add: handleProcessingError_def storeOk_emit)
next
  case (Some a)
  assume ok: "storeOk st"
  have mem: "(sid, a) \<in> set (processingQueue st)" using Some by (rule map_of_SomeD)
  then have ref: "jobRef st sid a" using ok by (auto simp: storeOk_def list_all_iff)
  show ?thesis
    using ok
  proof (rule storeOk_frame)
    show "length (jobs st) \<le> length (jobs (handleProcessingError sid st))"
      using Some by (simp add: handleProcessingError_def Let_def emit_def)
    show "job_streamId (jobs (handleProcessingError sid st) ! b) = job_streamId (jobs st ! b)"
      if "b < length (jobs st)" for b
      using Some that by (cases "b = a") (simp_all add: handleProcessingError_def Let_def emit_def)
    show "(k, b) \<in> set (processingQueue st) \<or> jobRef (handleProcessingError sid st) k b"
      if "(k, b) \<in> set (processingQueue (handleProcessingError sid st))" for k b
      using that by (simp add: hpe_frame)
    show "(k, b, d) \<in> set (retryTimers st) \<or> jobRef (handleProcessingError sid st) k b"
      if "(k, b, d) \<in> set (retryTimers (handleProcessingError sid st))" for k b d
      using that Some ref
      by (auto simp add: handleProcessingError_def Let_def emit_def jobRef_def split: if_splits)
  qed
qed

lemma storeOk_finally: "storeOk st \<Longrightarrow> storeOk (processStream_finally sid p e st)"
  by (erule storeOk_same) (simp_all add: processStream_finally_def emit_def)

lemma storeOk_settle: "storeOk st \<Longrightarrow> storeOk (processNextBatch_settle sid r st)"
proof -
  assume ok: "storeOk st"
  let ?st1 = "if r then handleProcessingError sid st else st"
  have "storeOk ?st1" using ok by (simp add: storeOk_hpe)
  then have "storeOk (?st1\<lparr>activeProcessing := Set_delete sid (activeProcessing ?st1)\<rparr>)"
    by (rule storeOk_same) simp_all
  then show ?thesis by (simp add: processNextBatch_settle_def Let_def)
qed

lemma storeOk_loop: "storeOk st \<Longrightarrow> storeOk (processStream_loop sid p e r st)"
proof -
  assume ok: "storeOk st"
  obtain batch evs b' where g: "getFrames sid 5 (streamBuffer st) = (batch, evs, b')"
    by (cases "getFrames sid 5 (streamBuffer st)") auto
  let ?st1 = "st\<lparr>streamBuffer := b', emitted := emitted st @ evs\<rparr>"
  have ok1: "storeOk ?st1" using ok by (rule storeOk_same) simp_all
  have a: "storeOk (processNextBatch_settle sid r (processStream_finally sid p e ?st1))"
    by (intro storeOk_settle storeOk_finally ok1)
  have b: "storeOk ((emit (AIProcessing sid (length batch)) ?st1)
                     \<lparr>passes := passes ?st1 @
                        [\<lparr> pass_streamId = sid, processedFrames = p,
                           errorCount = e, phase = AwaitBatch batch \<rparr>]\<rparr>)"
    using ok1 by (rule storeOk_same) (simp_all add: emit_def)
  have c: "storeOk (processNextBatch_settle sid r (processStream_finally sid p e st))"
    by (intro storeOk_settle storeOk_finally ok)
  show ?thesis
    using a b c g by (simp add: processStream_loop_def Let_def)
qed

lemma storeOk_pnb: "storeOk st \<Longrightarrow> storeOk (processNextBatch st)"
proof -
  assume ok: "storeOk st"
  have "storeOk (processStream_loop sid 0 0 False
          (emit (ProcessingStarted sid)
            (st\<lparr>activeProcessing := Set_add sid (activeProcessing st),
                processingQueue := AList.delete sid (processingQueue st)\<rparr>)))" for sid
  proof (intro storeOk_loop storeOk_emit)
    show "storeOk (st\<lparr>activeProcessing := Set_add sid (activeProcessing st),
                processingQueue := AList.delete sid (processingQueue st)\<rparr>)"
      using ok by (rule storeOk_same) (use set_delete_subset in simp_all)
  qed
  then show ?thesis
    using ok by (simp add: processNextBatch_def Let_def split: option.splits)
qed

lemma storeOk_setPriority:
  assumes ok: "storeOk st"
  shows "storeOk (st\<lparr>jobs := (jobs st)[a := (jobs st ! a)\<lparr>priority := v\<rparr>]\<rparr>)"
  using ok
proof (rule storeOk_frame)
  show "job_streamId (jobs (st\<lparr>jobs := (jobs st)[a := (jobs st ! a)\<lparr>priority := v\<rparr>]\<rparr>) ! b)
          = job_streamId (jobs st ! b)" if "b < length (jobs st)" for b
    using that by (cases "b = a") simp_all
qed simp_all

lemma storeOk_addStreamToQueue: "storeOk st \<Longrightarrow> storeOk (addStreamToQueue sid prio st)"
proof (cases "map_of (processingQueue st) sid")
  case (Some a)
  assume "storeOk st"
  then show ?thesis using Some by (simp add: addStreamToQueue_def storeOk_setPriority)
next
  case None
  assume ok: "storeOk st"
  let ?job = "\<lparr> job_streamId = sid, priority = prio,
                 frameCount = getBufferSize sid (streamBuffer st), retryCount = 0 \<rparr>"
  let ?st1 = "st\<lparr>jobs := jobs st @ [?job],
                 processingQueue := AList.update sid (length (jobs st)) (processingQueue st)\<rparr>"
  let ?st2 = "emit (QueueAdded sid prio (length (processingQueue ?st1))) ?st1"
  have ok1: "storeOk ?st1"
    using ok
  proof (rule storeOk_frame)
    show "(k, a) \<in> set (processingQueue st) \<or> jobRef ?st1 k a"
      if "(k, a) \<in> set (processingQueue ?st1)" for k a
      using that set_update_subset[of sid "length (jobs st)" "processingQueue st"]
      by (auto simp: jobRef_def)
  qed (simp_all add: nth_append)
  have ok2: "storeOk ?st2" using ok1 by (rule storeOk_emit)
  show ?thesis
    using None ok2 by (simp add: addStreamToQueue_def Let_def storeOk_pnb)
qed

lemma storeOk_removeStreamFromQueue: "storeOk st \<Longrightarrow> storeOk (removeStreamFromQueue sid st)"
  by (erule storeOk_same)
     (use set_delete_subset in \<open>simp_all add: removeStreamFromQueue_def Let_def emit_def\<close>)

lemma storeOk_start: "storeOk st \<Longrightarrow> storeOk (start st)"
proof -
  assume ok: "storeOk st"
  have "storeOk (st\<lparr>isProcessing := True\<rparr>)" using ok by (rule storeOk_same) simp_all
  then show ?thesis using ok by (simp add: start_def storeOk_emit storeOk_pnb)
qed

lemma storeOk_stop: "storeOk st \<Longrightarrow> storeOk (stop st)"
  by (erule storeOk_same) (simp_all add: stop_def emit_def)

lemma storeOk_onFrameAdded: "storeOk st \<Longrightarrow> storeOk (onFrameAdded sid st)"
  by (simp add: onFrameAdded_def storeOk_addStreamToQueue)

lemma storeOk_onBufferOverflow: "storeOk st \<Longrightarrow> storeOk (onBufferOverflow sid st)"
  by (simp add: onBufferOverflow_def storeOk_setPriority split: option.splits)

lemma storeOk_deliver: "storeOk st \<Longrightarrow> storeOk (deliver e st)"
  by (cases e)
     (simp_all add: storeOk_emit storeOk_onFrameAdded storeOk_onBufferOverflow
        storeOk_addStreamToQueue storeOk_removeStreamFromQueue)

lemma storeOk_fold:
  assumes "\<And>x s. storeOk s \<Longrightarrow> storeOk (g x s)"
  shows "storeOk st \<Longrightarrow> storeOk (fold g xs st)"
  by (induction xs arbitrary: st) (simp_all add: assms)

lemma storeOk_bufferCall: "storeOk st \<Longrightarrow> storeOk (snd (bufferCall f st))"
proof -
  assume ok: "storeOk st"
  obtain r evs b' where f: "f (streamBuffer st) = (r, evs, b')" by (cases "f (streamBuffer st)") auto
  have "storeOk (st\<lparr>streamBuffer := b'\<rparr>)" using ok by (rule storeOk_same) simp_all
  then have "storeOk (fold deliver evs (st\<lparr>streamBuffer := b'\<rparr>))"
    by (rule storeOk_fold[rotated]) (rule storeOk_deliver)
  then show ?thesis using f by (simp add: bufferCall_def)
qed

lemma storeOk_processQueue: "storeOk st \<Longrightarrow> storeOk (processQueue st)"
  by (simp add: processQueue_def storeOk_emit split: option.splits)

lemma storeOk_routeToAI: "storeOk st \<Longrightarrow> storeOk (routeToAI sid prio st)"
proof -
  assume ok: "storeOk st"
  have "storeOk (st\<lparr>routerQueue := AList.update sid prio (routerQueue st),
                    activeRoutes := Set_add sid (activeRoutes st)\<rparr>)"
    using ok by (rule storeOk_same) simp_all
  then show ?thesis
    unfolding routeToAI_def by (intro storeOk_processQueue storeOk_deliver)
qed

lemma storeOk_removeRoute: "storeOk st \<Longrightarrow> storeOk (removeRoute sid st)"
proof -
  assume ok: "storeOk st"
  have "storeOk (st\<lparr>routerQueue := AList.delete sid (routerQueue st),
                    activeRoutes := Set_delete sid (activeRoutes st)\<rparr>)"
    using ok by (rule storeOk_same) simp_all
  then show ?thesis
    unfolding removeRoute_def by (rule storeOk_deliver)
qed

lemma storeOk_runRules: "storeOk st \<Longrightarrow> storeOk (snd (runRules rules s st))"
  by (induction rules) (auto simp: storeOk_emit split: option.splits bool.splits)

lemma storeOk_routeToProcessor: "storeOk st \<Longrightarrow> storeOk (snd (routeToProcessor sid st))"
proof (cases "activeStreams st sid")
  case None
  assume "storeOk st"
  then show ?thesis using None by (simp add: routeToProcessor_def)
next
  case (Some stream)
  assume ok: "storeOk st"
  obtain okr st1 where sr: "shouldRoute stream st = (okr, st1)" by (cases "shouldRoute stream st") auto
  have ok1: "storeOk st1"
    using storeOk_runRules[OF ok, of defaultRoutingRules stream] sr by (simp add: shouldRoute_def)
  show ?thesis
    using Some sr ok1
    by (simp add: routeToProcessor_def storeOk_emit storeOk_addStreamToQueue storeOk_routeToAI)
qed

lemma storeOk_handleDisconnection: "storeOk st \<Longrightarrow> storeOk (handleDisconnection sid st)"
  by (erule storeOk_same)
     (use set_delete_subset in \<open>simp_all add: handleDisconnection_eq\<close>)

lemma storeOk_addVideoStream: "storeOk st \<Longrightarrow> storeOk (snd (addVideoStream stream st))"
proof -
  assume ok: "storeOk st"
  let ?st1 = "case userSessions st (userId stream) of
                          None \<Rightarrow> st
                        | Some existingStreamId \<Rightarrow>
                            if existingStreamId = [] then st
                            else handleDisconnection existingStreamId st"
  let ?st2 = "?st1\<lparr>activeStreams := (activeStreams ?st1)(streamId stream \<mapsto> stream),
                      userSessions := (userSessions ?st1)(userId stream \<mapsto> streamId stream)\<rparr>"
  have ok1: "storeOk ?st1"
    using ok by (simp add: storeOk_handleDisconnection split: option.splits)
  have ok2: "storeOk ?st2" using ok1 by (rule storeOk_same) simp_all
  have ok3: "storeOk (fold (\<lambda>frame s. snd (addFrameToBuffer (streamId stream) frame s)) fs ?st2)" for fs
    using ok2 by (rule storeOk_fold[rotated]) (simp add: addFrameToBuffer_def storeOk_bufferCall)
  show ?thesis
    using ok ok2 ok3
    by (simp add: addVideoStream_def Let_def storeOk_emit split: sum.splits option.splits)
qed

lemma storeOk_batchDone: "storeOk st \<Longrightarrow> storeOk (batchDone i okb st)"
  by (erule storeOk_same) (simp_all add: batchDone_def Let_def emit_def split: PassPhase.splits)

lemma storeOk_yieldDone: "storeOk st \<Longrightarrow> storeOk (yieldDone i r st)"
proof -
  assume ok: "storeOk st"
  have "storeOk (st\<lparr>passes := take i (passes st) @ drop (Suc i) (passes st)\<rparr>)"
    using ok by (rule storeOk_same) simp_all
  then show ?thesis
    using ok by (simp add: yieldDone_def Let_def storeOk_loop split: PassPhase.splits)
qed

lemma storeOk_retryFire: "storeOk st \<Longrightarrow> storeOk (retryFire k st)"
proof (cases "k < length (retryTimers st)")
  case False
  assume "storeOk st"
  then show ?thesis using False by (simp add: retryFire_def)
next
  case True
  assume ok: "storeOk st"
  obtain sid a d where t: "retryTimers st ! k = (sid, a, d)" by (cases "retryTimers st ! k") auto
  have "(sid, a, d) \<in> set (retryTimers st)" using True t by (metis nth_mem)
  then have ref: "jobRef st sid a" using ok by (fastforce simp: storeOk_def list_all_iff)
  let ?st1 = "st\<lparr>retryTimers := take k (retryTimers st) @ drop (Suc k) (retryTimers st),
                   processingQueue := AList.update sid a (processingQueue st)\<rparr>"
  have "storeOk ?st1"
    using ok
  proof (rule storeOk_frame)
    show "(k', b) \<in> set (processingQueue st) \<or> jobRef ?st1 k' b"
      if "(k', b) \<in> set (processingQueue ?st1)" for k' b
      using that ref set_update_subset[of sid a "processingQueue st"] by (auto simp: jobRef_def)
    show "(k', b, d') \<in> set (retryTimers st) \<or> jobRef ?st1 k' b"
      if "(k', b, d') \<in> set (retryTimers ?st1)" for k' b d'
      using that by (auto dest: in_set_takeD in_set_dropD)
  qed simp_all
  then show ?thesis using True t by (simp add: retryFire_def storeOk_pnb)
qed

lemma storeOk_step: "storeOk st \<Longrightarrow> storeOk (step a st)"
  by (cases a)
     (simp_all add: storeOk_addVideoStream storeOk_routeToProcessor storeOk_handleDisconnection
        addFrameToBuffer_def svc_getNextFrame_def svc_getFrames_def storeOk_bufferCall
        storeOk_routeToAI storeOk_removeRoute storeOk_addStreamToQueue
        storeOk_removeStreamFromQueue storeOk_start storeOk_stop storeOk_pnb
        storeOk_batchDone storeOk_yieldDone storeOk_retryFire)

lemma storeOk_run: "storeOk st \<Longrightarrow> storeOk (run acts st)"
  unfolding run_def by (induction acts arbitrary: st) (simp_all add: storeOk_step)

lemma storeOk_new: "storeOk (new_StreamIngestionService bufferSize)"
proof -
  have "storeOk (new_System bufferSize 5)" by (simp add: storeOk_def new_System_def)
  then show ?thesis by (simp add: new_StreamIngestionService_def storeOk_start)
qed

lemma storeOk_reachable: "storeOk (run acts (new_StreamIngestionService bufferSize))"
  by (rule storeOk_run[OF storeOk_new])

section \<open>Faithfulness of the lists standing for maps and sets\<close>

text \<open>
  In every state the service can reach, no key occurs twice in a queue and no member
  twice in a set, so the length of \<open>activeProcessing\<close> is the size of the set.
\<close>

lemma distinct_Set_add: "distinct xs \<Longrightarrow> distinct (Set_add x xs)"
  by (simp add: Set_add_def)

lemma distinct_Set_delete: "distinct xs \<Longrightarrow> distinct (Set_delete x xs)"
  by (simp add: Set_delete_def distinct_removeAll)

lemma mapsOk_same:
  assumes "mapsOk st" "processingQueue st' = processingQueue st" "routerQueue st' = routerQueue st"
    "activeProcessing st' = activeProcessing st" "activeRoutes st' = activeRoutes st"
  shows "mapsOk st'"
  using assms by (simp add: mapsOk_def)

lemma mapsOk_emit: "mapsOk st \<Longrightarrow> mapsOk (emit e st)"
  by (erule mapsOk_same) (simp_all add: emit_def)

lemma hpe_routes:
  "routerQueue (handleProcessingError sid st) = routerQueue st"
  "activeRoutes (handleProcessingError sid st) = activeRoutes st"
  by (simp_all add: handleProcessingError_def emit_def Let_def split: option.splits)

lemma mapsOk_hpe: "mapsOk st \<Longrightarrow> mapsOk (handleProcessingError sid st)"
  by (erule mapsOk_same) (simp_all add: hpe_frame hpe_routes)

lemma mapsOk_finally: "mapsOk st \<Longrightarrow> mapsOk (processStream_finally sid p e st)"
  by (erule mapsOk_same) (simp_all add: processStream_finally_def emit_def)

lemma mapsOk_settle: "mapsOk st \<Longrightarrow> mapsOk (processNextBatch_settle sid r st)"
  by (simp add: mapsOk_def processNextBatch_settle_def Let_def hpe_frame hpe_routes distinct_Set_delete)

lemma mapsOk_loop: "mapsOk st \<Longrightarrow> mapsOk (processStream_loop sid p e r st)"
proof -
  assume ok: "mapsOk st"
  obtain batch evs b' where g: "getFrames sid 5 (streamBuffer st) = (batch, evs, b')"
    by (cases "getFrames sid 5 (streamBuffer st)") auto
  let ?st1 = "st\<lparr>streamBuffer := b', emitted := emitted st @ evs\<rparr>"
  have ok1: "mapsOk ?st1" using ok by (rule mapsOk_same) simp_all
  have a: "mapsOk (processNextBatch_settle sid r (processStream_finally sid p e ?st1))"
    by (intro mapsOk_settle mapsOk_finally ok1)
  have b: "mapsOk ((emit (AIProcessing sid (length batch)) ?st1)
                     \<lparr>passes := passes ?st1 @
                        [\<lparr> pass_streamId = sid, processedFrames = p,
                           errorCount = e, phase = AwaitBatch batch \<rparr>]\<rparr>)"
    using ok1 by (rule mapsOk_same) (simp_all add: emit_def)
  have c: "mapsOk (processNextBatch_settle sid r (processStream_finally sid p e st))"
    by (intro mapsOk_settle mapsOk_finally ok)
  show ?thesis
    using a b c g by (simp add: processStream_loop_def Let_def)
qed

lemma mapsOk_pnb: "mapsOk st \<Longrightarrow> mapsOk (processNextBatch st)"
proof -
  assume ok: "mapsOk st"
  have "mapsOk (processStream_loop sid 0 0 False
          (emit (ProcessingStarted sid)
            (st\<lparr>activeProcessing := Set_add sid (activeProcessing st),
                processingQueue := AList.delete sid (processingQueue st)\<rparr>)))" for sid
  proof (intro mapsOk_loop mapsOk_emit)
    show "mapsOk (st\<lparr>activeProcessing := Set_add sid (activeProcessing st),
                processingQueue := AList.delete sid (processingQueue st)\<rparr>)"
      using ok by (simp add: mapsOk_def distinct_Set_add distinct_delete)
  qed
  then show ?thesis
    using ok by (simp add: processNextBatch_def Let_def split: option.splits)
qed

lemma mapsOk_addStreamToQueue: "mapsOk st \<Longrightarrow> mapsOk (addStreamToQueue sid prio st)"
proof (cases "map_of (processingQueue st) sid")
  case (Some a)
  assume "mapsOk st"
  then show ?thesis using Some by (simp add: addStreamToQueue_def mapsOk_def)
next
  case None
  assume ok: "mapsOk st"
  let ?job = "\<lparr> job_streamId = sid, priority = prio,
                 frameCount = getBufferSize sid (streamBuffer st), retryCount = 0 \<rparr>"
  let ?st1 = "st\<lparr>jobs := jobs st @ [?job],
                 processingQueue := AList.update sid (length (jobs st)) (processingQueue st)\<rparr>"
  let ?st2 = "emit (QueueAdded sid prio (length (processingQueue ?st1))) ?st1"
  have ok1: "mapsOk ?st1" using ok by (simp add: mapsOk_def distinct_update)
  have ok2: "mapsOk ?st2" using ok1 by (rule mapsOk_emit)
  show ?thesis
    using None ok2 by (simp add: addStreamToQueue_def Let_def mapsOk_pnb)
qed

lemma mapsOk_removeStreamFromQueue: "mapsOk st \<Longrightarrow> mapsOk (removeStreamFromQueue sid st)"
  by (simp add: mapsOk_def removeStreamFromQueue_def Let_def emit_def distinct_delete distinct_Set_delete)

lemma mapsOk_start: "mapsOk st \<Longrightarrow> mapsOk (start st)"
proof -
  assume ok: "mapsOk st"
  have "mapsOk (st\<lparr>isProcessing := True\<rparr>)" using ok by (rule mapsOk_same) simp_all
  then show ?thesis using ok by (simp add: start_def mapsOk_emit mapsOk_pnb)
qed

lemma mapsOk_stop: "mapsOk st \<Longrightarrow> mapsOk (stop st)"
  by (simp add: mapsOk_def stop_def emit_def)

lemma mapsOk_onFrameAdded: "mapsOk st \<Longrightarrow> mapsOk (onFrameAdded sid st)"
  by (simp add: onFrameAdded_def mapsOk_addStreamToQueue)

lemma mapsOk_onBufferOverflow: "mapsOk st \<Longrightarrow> mapsOk (onBufferOverflow sid st)"
  by (simp add: onBufferOverflow_def mapsOk_def split: option.splits)

lemma mapsOk_deliver: "mapsOk st \<Longrightarrow> mapsOk (deliver e st)"
  by (cases e)
     (simp_all add: mapsOk_emit mapsOk_onFrameAdded mapsOk_onBufferOverflow
        mapsOk_addStreamToQueue mapsOk_removeStreamFromQueue)

lemma mapsOk_fold:
  assumes "\<And>x s. mapsOk s \<Longrightarrow> mapsOk (g x s)"
  shows "mapsOk st \<Longrightarrow> mapsOk (fold g xs st)"
  by (induction xs arbitrary: st) (simp_all add: assms)

lemma mapsOk_bufferCall: "mapsOk st \<Longrightarrow> mapsOk (snd (bufferCall f st))"
proof -
  assume ok: "mapsOk st"
  obtain r evs b' where f: "f (streamBuffer st) = (r, evs, b')" by (cases "f (streamBuffer st)") auto
  have "mapsOk (st\<lparr>streamBuffer := b'\<rparr>)" using ok by (rule mapsOk_same) simp_all
  then have "mapsOk (fold deliver evs (st\<lparr>streamBuffer := b'\<rparr>))"
    by (rule mapsOk_fold[rotated]) (rule mapsOk_deliver)
  then show ?thesis using f by (simp add: bufferCall_def)
qed

lemma mapsOk_processQueue: "mapsOk st \<Longrightarrow> mapsOk (processQueue st)"
  by (simp add: processQueue_def mapsOk_emit split: option.splits)

lemma mapsOk_routeToAI: "mapsOk st \<Longrightarrow> mapsOk (routeToAI sid prio st)"
proof -
  assume ok: "mapsOk st"
  have "mapsOk (st\<lparr>routerQueue := AList.update sid prio (routerQueue st),
                    activeRoutes := Set_add sid (activeRoutes st)\<rparr>)"
    using ok by (simp add: mapsOk_def distinct_update distinct_Set_add)
  then show ?thesis
    unfolding routeToAI_def by (intro mapsOk_processQueue mapsOk_deliver)
qed

lemma mapsOk_removeRoute: "mapsOk st \<Longrightarrow> mapsOk (removeRoute sid st)"
proof -
  assume ok: "mapsOk st"
  have "mapsOk (st\<lparr>routerQueue := AList.delete sid (routerQueue st),
                    activeRoutes := Set_delete sid (activeRoutes st)\<rparr>)"
    using ok by (simp add: mapsOk_def distinct_delete distinct_Set_delete)
  then show ?thesis
    unfolding removeRoute_def by (rule mapsOk_deliver)
qed

lemma mapsOk_runRules: "mapsOk st \<Longrightarrow> mapsOk (snd (runRules rules s st))"
  by (induction rules) (auto simp: mapsOk_emit split: option.splits bool.splits)

lemma mapsOk_routeToProcessor: "mapsOk st \<Longrightarrow> mapsOk (snd (routeToProcessor sid st))"
proof (cases "activeStreams st sid")
  case None
  assume "mapsOk st"
  then show ?thesis using None by (simp add: routeToProcessor_def)
next
  case (Some stream)
  assume ok: "mapsOk st"
  obtain okr st1 where sr: "shouldRoute stream st = (okr, st1)" by (cases "shouldRoute stream st") auto
  have ok1: "mapsOk st1"
    using mapsOk_runRules[OF ok, of defaultRoutingRules stream] sr by (simp add: shouldRoute_def)
  show ?thesis
    using Some sr ok1
    by (simp add: routeToProcessor_def mapsOk_emit mapsOk_addStreamToQueue mapsOk_routeToAI)
qed

lemma mapsOk_handleDisconnection: "mapsOk st \<Longrightarrow> mapsOk (handleDisconnection sid st)"
  by (simp add: mapsOk_def handleDisconnection_eq distinct_delete distinct_Set_delete)

lemma mapsOk_addVideoStream: "mapsOk st \<Longrightarrow> mapsOk (snd (addVideoStream stream st))"
proof -
  assume ok: "mapsOk st"
  let ?st1 = "case userSessions st (userId stream) of
                          None \<Rightarrow> st
                        | Some existingStreamId \<Rightarrow>
                            if existingStreamId = [] then st
                            else handleDisconnection existingStreamId st"
  let ?st2 = "?st1\<lparr>activeStreams := (activeStreams ?st1)(streamId stream \<mapsto> stream),
                      userSessions := (userSessions ?st1)(userId stream \<mapsto> streamId stream)\<rparr>"
  have ok1: "mapsOk ?st1"
    using ok by (simp add: mapsOk_handleDisconnection split: option.splits)
  have ok2: "mapsOk ?st2" using ok1 by (rule mapsOk_same) simp_all
  have ok3: "mapsOk (fold (\<lambda>frame s. snd (addFrameToBuffer (streamId stream) frame s)) fs ?st2)" for fs
    using ok2 by (rule mapsOk_fold[rotated]) (simp add: addFrameToBuffer_def mapsOk_bufferCall)
  show ?thesis
    using ok ok2 ok3
    by (simp add: addVideoStream_def Let_def mapsOk_emit split: sum.splits option.splits)
qed

lemma mapsOk_batchDone: "mapsOk st \<Longrightarrow> mapsOk (batchDone i okb st)"
  by (erule mapsOk_same) (simp_all add: batchDone_def Let_def emit_def split: PassPhase.splits)

lemma mapsOk_yieldDone: "mapsOk st \<Longrightarrow> mapsOk (yieldDone i r st)"
proof -
  assume ok: "mapsOk st"
  have "mapsOk (st\<lparr>passes := take i (passes st) @ drop (Suc i) (passes st)\<rparr>)"
    using ok by (rule mapsOk_same) simp_all
  then show ?thesis
    using ok by (simp add: yieldDone_def Let_def mapsOk_loop split: PassPhase.splits)
qed

lemma mapsOk_retryFire: "mapsOk st \<Longrightarrow> mapsOk (retryFire k st)"
proof (cases "k < length (retryTimers st)")
  case False
  assume "mapsOk st"
  then show ?thesis using False by (simp add: retryFire_def)
next
  case True
  assume ok: "mapsOk st"
  obtain sid a d where t: "retryTimers st ! k = (sid, a, d)" by (cases "retryTimers st ! k") auto
  have "mapsOk (st\<lparr>retryTimers := take k (retryTimers st) @ drop (Suc k) (retryTimers st),
                   processingQueue := AList.update sid a (processingQueue st)\<rparr>)"
    using ok by (simp add: mapsOk_def distinct_update)
  then show ?thesis using True t by (simp add: retryFire_def mapsOk_pnb)
qed

lemma mapsOk_step: "mapsOk st \<Longrightarrow> mapsOk (step a st)"
  by (cases a)
     (simp_all add: mapsOk_addVideoStream mapsOk_routeToProcessor mapsOk_handleDisconnection
        addFrameToBuffer_def svc_getNextFrame_def svc_getFrames_def mapsOk_bufferCall
        mapsOk_routeToAI mapsOk_removeRoute mapsOk_addStreamToQueue
        mapsOk_removeStreamFromQueue mapsOk_start mapsOk_stop mapsOk_pnb
        mapsOk_batchDone mapsOk_yieldDone mapsOk_retryFire)

lemma mapsOk_run: "mapsOk st \<Longrightarrow> mapsOk (run acts st)"
  unfolding run_def by (induction acts arbitrary: st) (simp_all add: mapsOk_step)

lemma mapsOk_new: "mapsOk (new_StreamIngestionService bufferSize)"
proof -
  have "mapsOk (new_System bufferSize 5)" by (simp add: mapsOk_def new_System_def)
  then show ?thesis by (simp add: new_StreamIngestionService_def mapsOk_start)
qed

lemma mapsOk_reachable: "mapsOk (run acts (new_StreamIngestionService bufferSize))"
  by (rule mapsOk_run[OF mapsOk_new])


section \<open>Claims about admission\<close>

lemma loop_jobs:
  "jobs (processStream_loop sid p e False st) = jobs st"
  "routerQueue (processStream_loop sid p e r st) = routerQueue st"
  by (simp_all add: processStream_loop_def Let_def processNextBatch_settle_def
      processStream_finally_def handleProcessingError_def emit_def split: prod.splits option.splits)

lemma pnb_jobs:
  "jobs (processNextBatch st) = jobs st"
  "routerQueue (processNextBatch st) = routerQueue st"
  by (simp_all add: processNextBatch_def Let_def loop_jobs emit_def split: option.splits)

lemma pnb_queue:
  "processingQueue (processNextBatch st) = processingQueue st
   \<or> (\<exists>x. processingQueue (processNextBatch st) = AList.delete x (processingQueue st))"
  by (auto simp add: processNextBatch_def Let_def loop_frame emit_def split: option.splits)

lemma processQueue_frame:
  "jobs (processQueue st) = jobs st"
  "processingQueue (processQueue st) = processingQueue st"
  "routerQueue (processQueue st) = routerQueue st"
  by (simp_all add: processQueue_def emit_def split: option.splits)

lemma astq_queued:
  assumes "map_of (processingQueue s) sid = Some a"
  shows "processingQueue (addStreamToQueue sid p s) = processingQueue s"
    and "jobs (addStreamToQueue sid p s)
           = (jobs s)[a := (jobs s ! a)\<lparr>priority := max (priority (jobs s ! a)) p\<rparr>]"
  using assms by (simp_all add: addStreamToQueue_def)

lemma astq_router: "routerQueue (addStreamToQueue sid p s) = routerQueue s"
  by (simp add: addStreamToQueue_def Let_def pnb_jobs emit_def split: option.splits)

lemma astq_fresh:
  assumes "map_of (processingQueue s) sid = None"
  shows "jobs (addStreamToQueue sid p s)
           = jobs s @ [\<lparr> job_streamId = sid, priority = p,
                          frameCount = getBufferSize sid (streamBuffer s), retryCount = 0 \<rparr>]"
    and "processingQueue (addStreamToQueue sid p s) = AList.update sid (length (jobs s)) (processingQueue s)
         \<or> (\<exists>x. processingQueue (addStreamToQueue sid p s)
                 = AList.delete x (AList.update sid (length (jobs s)) (processingQueue s)))"
proof -
  let ?job = "\<lparr> job_streamId = sid, priority = p,
                 frameCount = getBufferSize sid (streamBuffer s), retryCount = 0 \<rparr>"
  let ?st1 = "s\<lparr>jobs := jobs s @ [?job],
                 processingQueue := AList.update sid (length (jobs s)) (processingQueue s)\<rparr>"
  let ?st2 = "emit (QueueAdded sid p (length (processingQueue ?st1))) ?st1"
  have eq: "addStreamToQueue sid p s =
      (if isProcessing ?st2 \<and> length (activeProcessing ?st2) < maxConcurrentStreams ?st2
              then processNextBatch ?st2 else ?st2)"
    using assms by (simp add: addStreamToQueue_def Let_def)
  show "jobs (addStreamToQueue sid p s) = jobs s @ [?job]"
    unfolding eq by (simp add: pnb_jobs emit_def)
  show "processingQueue (addStreamToQueue sid p s) = AList.update sid (length (jobs s)) (processingQueue s)
         \<or> (\<exists>x. processingQueue (addStreamToQueue sid p s)
                 = AList.delete x (AList.update sid (length (jobs s)) (processingQueue s)))"
    unfolding eq using pnb_queue[of ?st2] by (auto simp: emit_def)
qed

lemma count_update:
  "length (filter (\<lambda>e. fst e = k) (AList.update k v al))
     = (if k \<in> fst ` set al then length (filter (\<lambda>e. fst e = k) al) else 1)"
  by (induction al) auto

lemma count_delete_other:
  "x \<noteq> k \<Longrightarrow> length (filter (\<lambda>e. fst e = k) (AList.delete x al)) = length (filter (\<lambda>e. fst e = k) al)"
  by (induction al) auto

lemma count_absent: "k \<notin> fst ` set al \<Longrightarrow> length (filter (\<lambda>e. fst e = k) al) = 0"
  by (induction al) auto

lemma count_present: "k \<in> fst ` set al \<Longrightarrow> 1 \<le> length (filter (\<lambda>e. fst e = k) al)"
  by (induction al) auto

lemma fresh_then_queued:
  assumes fresh: "map_of (processingQueue s) sid = None"
    and still: "map_of (processingQueue (addStreamToQueue sid p s)) sid \<noteq> None"
  shows "map_of (processingQueue (addStreamToQueue sid p s)) sid = Some (length (jobs s))"
    and "length (filter (\<lambda>e. fst e = sid) (processingQueue (addStreamToQueue sid p s))) = 1"
    and "priority (jobs (addStreamToQueue sid p s) ! length (jobs s)) = p"
    and "length (jobs s) < length (jobs (addStreamToQueue sid p s))"
proof -
  let ?q' = "AList.update sid (length (jobs s)) (processingQueue s)"
  have notin: "sid \<notin> fst ` set (processingQueue s)"
    using fresh by (simp add: map_of_eq_None_iff)
  have c1: "length (filter (\<lambda>e. fst e = sid) ?q') = 1"
    using notin by (simp add: count_update)
  from astq_fresh(2)[OF fresh, of p]
  have "map_of (processingQueue (addStreamToQueue sid p s)) sid = Some (length (jobs s))
        \<and> length (filter (\<lambda>e. fst e = sid) (processingQueue (addStreamToQueue sid p s))) = 1"
  proof
    assume "processingQueue (addStreamToQueue sid p s) = ?q'"
    then show ?thesis using c1 by (simp add: update_conv')
  next
    assume "\<exists>x. processingQueue (addStreamToQueue sid p s) = AList.delete x ?q'"
    then obtain x where x: "processingQueue (addStreamToQueue sid p s) = AList.delete x ?q'" by blast
    have "x \<noteq> sid" using still x by (auto simp: delete_conv)
    then show ?thesis using x c1 by (simp add: delete_conv update_conv' count_delete_other)
  qed
  then show "map_of (processingQueue (addStreamToQueue sid p s)) sid = Some (length (jobs s))"
    and "length (filter (\<lambda>e. fst e = sid) (processingQueue (addStreamToQueue sid p s))) = 1"
    by simp_all
  show "priority (jobs (addStreamToQueue sid p s) ! length (jobs s)) = p"
    and "length (jobs s) < length (jobs (addStreamToQueue sid p s))"
    by (simp_all add: astq_fresh(1)[OF fresh])
qed

lemma readmit_queue:
  assumes fresh: "\<not> queued sid st"
    and still: "queued sid (addStreamToQueue sid p1 st)"
    and same: "processingQueue s = processingQueue (addStreamToQueue sid p1 st)"
              "jobs s = jobs (addStreamToQueue sid p1 st)"
  shows "jobPriority sid (addStreamToQueue sid p2 s) = Some (max p1 p2)
         \<and> jobEntries sid (addStreamToQueue sid p2 s) = 1"
proof -
  have f: "map_of (processingQueue st) sid = None" using fresh by (simp add: queued_def)
  have q: "map_of (processingQueue (addStreamToQueue sid p1 st)) sid \<noteq> None"
    using still by (simp add: queued_def)
  note k = fresh_then_queued[OF f q]
  have a: "map_of (processingQueue s) sid = Some (length (jobs st))" using k(1) same by simp
  show ?thesis
    using k same a
    by (simp add: jobPriority_def jobEntries_def astq_queued[OF a])
qed


lemma routeToAI_eq:
  "routeToAI sid p st =
     processQueue (addStreamToQueue sid p (emit (RouteAdded sid p)
       (st\<lparr>routerQueue := AList.update sid p (routerQueue st),
           activeRoutes := Set_add sid (activeRoutes st)\<rparr>)))"
  by (simp add: routeToAI_def)

lemma routeToAI_router: "routerQueue (routeToAI sid p st) = AList.update sid p (routerQueue st)"
  by (simp add: routeToAI_eq processQueue_frame astq_router emit_def)

lemma readmit_router:
  assumes "routeEntries sid st \<le> 1"
  shows "map_of (routerQueue (routeToAI sid p2 (routeToAI sid p1 st))) sid = Some p2"
    and "routeEntries sid (routeToAI sid p2 (routeToAI sid p1 st)) = 1"
proof -
  show "map_of (routerQueue (routeToAI sid p2 (routeToAI sid p1 st))) sid = Some p2"
    by (simp add: routeToAI_router update_conv')
  have c1: "length (filter (\<lambda>e. fst e = sid) (AList.update sid p1 (routerQueue st))) = 1"
    using assms count_present[of sid "routerQueue st"]
    by (simp add: count_update routeEntries_def)
  have "sid \<in> fst ` set (AList.update sid p1 (routerQueue st))"
    by (simp add: keys_update)
  then show "routeEntries sid (routeToAI sid p2 (routeToAI sid p1 st)) = 1"
    using c1 by (simp add: routeEntries_def routeToAI_router count_update)
qed

lemma readmit_route_queue:
  assumes fresh: "\<not> queued sid st"
    and still: "queued sid (routeToAI sid p1 st)"
  shows "jobPriority sid (routeToAI sid p2 (routeToAI sid p1 st)) = Some (max p1 p2)
         \<and> jobEntries sid (routeToAI sid p2 (routeToAI sid p1 st)) = 1"
proof -
  let ?A = "\<lambda>p st. emit (RouteAdded sid p)
       (st\<lparr>routerQueue := AList.update sid p (routerQueue st),
           activeRoutes := Set_add sid (activeRoutes st)\<rparr>)"
  let ?st1 = "routeToAI sid p1 st"
  have f: "\<not> queued sid (?A p1 st)" using fresh by (simp add: queued_def emit_def)
  have q: "queued sid (addStreamToQueue sid p1 (?A p1 st))"
    using still by (simp add: queued_def routeToAI_eq processQueue_frame)
  have s1: "processingQueue (?A p2 ?st1) = processingQueue (addStreamToQueue sid p1 (?A p1 st))"
    by (simp add: emit_def routeToAI_eq processQueue_frame)
  have s2: "jobs (?A p2 ?st1) = jobs (addStreamToQueue sid p1 (?A p1 st))"
    by (simp add: emit_def routeToAI_eq processQueue_frame)
  have e1: "jobPriority sid (processQueue s) = jobPriority sid s" for s
    unfolding jobPriority_def by (simp only: processQueue_frame)
  have e2: "jobEntries sid (processQueue s) = jobEntries sid s" for s
    unfolding jobEntries_def by (simp only: processQueue_frame)
  from readmit_queue[OF f q s1 s2, of p2]
  show ?thesis
    by (simp only: routeToAI_eq[of sid p2 ?st1] e1 e2)
qed

lemma entries_distinct:
  "distinct (map fst al) \<Longrightarrow> length (filter (\<lambda>e. fst e = k) al) \<le> 1"
  by (induction al) (force simp: filter_empty_conv)+

lemma reachable_one_entry:
  "routeEntries sid (run acts (new_StreamIngestionService bufferSize)) \<le> 1"
  "jobEntries sid (run acts (new_StreamIngestionService bufferSize)) \<le> 1"
  using mapsOk_reachable[of acts bufferSize]
  using entries_distinct[of "routerQueue (run acts (new_StreamIngestionService bufferSize))" sid]
    entries_distinct[of "processingQueue (run acts (new_StreamIngestionService bufferSize))" sid]
  by (simp_all add: mapsOk_def routeEntries_def jobEntries_def)

lemma run_append: "run (acts @ acts') st = run acts' (run acts st)"
  by (simp add: run_def)

lemma run_twice_routed:
  "run (acts @ [RouteToAI sid p1, RouteToAI sid p2]) st
     = routeToAI sid p2 (routeToAI sid p1 (run acts st))"
  by (simp add: run_def)

text \<open>
  Claim C4, as stated, fails: a stream routed with priority 5 and then with priority 1
  has router priority 1, not \<open>max 5 1\<close>, since \<open>routeToAI\<close> overwrites the entry.
\<close>

theorem C4_counterexample:
  "map_of (routerQueue (routeToAI ''s2'' 1 (routeToAI ''s2'' 5 (new_StreamIngestionService 30)))) ''s2''
     \<noteq> Some (max 5 1)"
  by code_simp

text \<open>
  Claim C4, amended: routing a stream with \<open>p1\<close> and then with \<open>p2\<close> leaves exactly one
  router entry for it, whose priority is \<open>p2\<close>; and when the stream had no job and the job
  made by the first admission is still queued at the second, it leaves exactly one job
  entry, whose priority is \<open>max p1 p2\<close> (through \<open>routeToAI\<close> and through
  \<open>addStreamToQueue\<close> alike). After any run of the service followed by the two
  admissions there is one router entry, of priority \<open>p2\<close>, and at most one job entry.
\<close>

theorem C4_readmission:
  "(routeEntries sid st \<le> 1 \<longrightarrow>
      map_of (routerQueue (routeToAI sid p2 (routeToAI sid p1 st))) sid = Some p2
      \<and> routeEntries sid (routeToAI sid p2 (routeToAI sid p1 st)) = 1)
   \<and> (\<not> queued sid st \<and> queued sid (routeToAI sid p1 st) \<longrightarrow>
      jobPriority sid (routeToAI sid p2 (routeToAI sid p1 st)) = Some (max p1 p2)
      \<and> jobEntries sid (routeToAI sid p2 (routeToAI sid p1 st)) = 1)
   \<and> (\<not> queued sid st \<and> queued sid (addStreamToQueue sid p1 st) \<longrightarrow>
      jobPriority sid (addStreamToQueue sid p2 (addStreamToQueue sid p1 st)) = Some (max p1 p2)
      \<and> jobEntries sid (addStreamToQueue sid p2 (addStreamToQueue sid p1 st)) = 1)
   \<and> map_of (routerQueue (run (acts @ [RouteToAI sid p1, RouteToAI sid p2])
                 (new_StreamIngestionService bufferSize))) sid = Some p2
   \<and> routeEntries sid (run (acts @ [RouteToAI sid p1, RouteToAI sid p2])
                 (new_StreamIngestionService bufferSize)) = 1
   \<and> jobEntries sid (run (acts @ [RouteToAI sid p1, RouteToAI sid p2])
                 (new_StreamIngestionService bufferSize)) \<le> 1"
proof -
  let ?st = "run acts (new_StreamIngestionService bufferSize)"
  have r: "routeEntries sid ?st \<le> 1" by (rule reachable_one_entry)
  have a: "map_of (routerQueue (run (acts @ [RouteToAI sid p1, RouteToAI sid p2])
                 (new_StreamIngestionService bufferSize))) sid = Some p2
   \<and> routeEntries sid (run (acts @ [RouteToAI sid p1, RouteToAI sid p2])
                 (new_StreamIngestionService bufferSize)) = 1"
    unfolding run_twice_routed using readmit_router[OF r] by simp
  have b: "jobEntries sid (run (acts @ [RouteToAI sid p1, RouteToAI sid p2])
                 (new_StreamIngestionService bufferSize)) \<le> 1"
    by (rule reachable_one_entry)
  show ?thesis
    using a b readmit_router[of sid st p2 p1] readmit_route_queue[of sid st p1 p2]
      readmit_queue[of sid st p1 "addStreamToQueue sid p1 st" p2]
    by blast
qed

text \<open>C4 on the service as constructed: priority 1, then 5, for a stream without frames.\<close>

theorem C4_witness:
  "routeEntries ''s2'' (new_StreamIngestionService 30) \<le> 1
   \<and> \<not> queued ''s2'' (new_StreamIngestionService 30)
   \<and> queued ''s2'' (routeToAI ''s2'' 1 (new_StreamIngestionService 30))
   \<and> map_of (routerQueue (routeToAI ''s2'' 5 (routeToAI ''s2'' 1 (new_StreamIngestionService 30)))) ''s2''
       = Some 5
   \<and> jobPriority ''s2'' (routeToAI ''s2'' 5 (routeToAI ''s2'' 1 (new_StreamIngestionService 30)))
       = Some 5
   \<and> jobEntries ''s2'' (routeToAI ''s2'' 5 (routeToAI ''s2'' 1 (new_StreamIngestionService 30))) = 1"
proof -
  have h1: "routeEntries ''s2'' (new_StreamIngestionService 30) \<le> 1" by code_simp
  have h2: "\<not> queued ''s2'' (new_StreamIngestionService 30)" by code_simp
  have h3: "queued ''s2'' (routeToAI ''s2'' 1 (new_StreamIngestionService 30))" by code_simp
  show ?thesis
    using h1 h2 h3
      C4_readmission[where sid="''s2''" and st="new_StreamIngestionService 30" and ?p1.0=1 and ?p2.0=5]
    by simp
qed

end
